theory Spec2Isabelle
  imports Main "HOL-Library.Word"
begin

section \<open>Data model of \<open>djl_python/inputs.py\<close>\<close>

text \<open>
  A Python \<open>bytes\<close>/\<open>bytearray\<close> is a list of 8-bit words. A Python \<open>str\<close> is a list
  of Unicode code points (natural numbers); \<open>None\<close> is the \<open>None\<close> of an option type.
  Python integers are unbounded, hence \<open>int\<close>.
\<close>

type_synonym byte = "8 word"
type_synonym bytes = "byte list"
type_synonym pystr = "nat list"

definition str_of :: "string \<Rightarrow> pystr" where
  \<comment> \<open>an ASCII string literal of the source as a Python \<open>str\<close>\<close>
  "str_of s = map of_char s"

text \<open>
  The exceptions the module can raise: \<open>ValueError("Connection disconnected")\<close>,
  \<open>struct.error\<close>, \<open>UnicodeDecodeError\<close>, \<open>Exception("input is empty.")\<close>,
  \<open>AttributeError\<close> (a method called on \<open>None\<close>), and whatever an external parser
  (\<open>ast.literal_eval\<close>, \<open>PIL.Image.open\<close>, \<open>from_nd_list\<close>) reports.
\<close>

datatype error =
    Disconnected
  | StructError
  | DecodeError
  | EmptyInput
  | AttributeError
  | External string

subsection \<open>The connection\<close>

text \<open>
  The socket is outside the module; the module only calls \<open>conn.recv(n)\<close>, which returns
  at most \<open>n\<close> bytes and returns no bytes when the stream is closed. The connection is
  the list of packets still to be delivered (a packet larger than the request is split, an
  empty packet is a read that returns no bytes, no packet left is a closed stream) and the
  number of \<open>recv\<close> calls made so far.
\<close>

record conn =
  pending :: "bytes list"
  reads :: nat

definition recv :: "conn \<Rightarrow> int \<Rightarrow> bytes \<times> conn" where
  "recv c n =
     (case pending c of
        [] \<Rightarrow> ([], c\<lparr>reads := Suc (reads c)\<rparr>)
      | p # ps \<Rightarrow>
          (take (nat n) p,
           c\<lparr>pending := (if length p \<le> nat n then ps else drop (nat n) p # ps),
             reads := Suc (reads c)\<rparr>))"

section \<open>Stream primitives\<close>

subsection \<open>\<open>retrieve_buffer\<close>\<close>

text \<open>
  The \<open>while length > 0\<close> loop of \<open>retrieve_buffer\<close>, with the accumulated
  \<open>data\<close> as an argument. Every iteration either raises or lowers \<open>length\<close>.
\<close>

function retrieve_buffer_loop :: "conn \<Rightarrow> int \<Rightarrow> bytes \<Rightarrow> (error + bytes) \<times> conn" where
  "retrieve_buffer_loop c len data =
     (if len > 0 then
        (case recv c len of (pkt, c') \<Rightarrow>
           if length pkt = 0 then (Inl Disconnected, c')
           else retrieve_buffer_loop c' (len - int (length pkt)) (data @ pkt))
      else (Inr data, c))"
  by pat_completeness auto
termination
  by (relation "measure (\<lambda>(c, len, data). nat len)") auto

definition retrieve_buffer :: "conn \<Rightarrow> int \<Rightarrow> (error + bytes) \<times> conn" where
  "retrieve_buffer c len = retrieve_buffer_loop c len []"

subsection \<open>\<open>struct.unpack\<close>\<close>

text \<open>
  \<open>struct.unpack(">h", data)\<close> and \<open>struct.unpack(">i", data)\<close>: big-endian two's
  complement of exactly 2 resp. 4 bytes, \<open>struct.error\<close> on any other length.
\<close>

definition be_nat :: "bytes \<Rightarrow> nat" where
  "be_nat bs = foldl (\<lambda>acc b. acc * 256 + unat b) 0 bs"

definition unpack_h :: "bytes \<Rightarrow> error + int" where
  "unpack_h data =
     (if length data = 2 then
        Inr (if be_nat data < 2 ^ 15 then int (be_nat data) else int (be_nat data) - 2 ^ 16)
      else Inl StructError)"

definition unpack_i :: "bytes \<Rightarrow> error + int" where
  "unpack_i data =
     (if length data = 4 then
        Inr (if be_nat data < 2 ^ 31 then int (be_nat data) else int (be_nat data) - 2 ^ 32)
      else Inl StructError)"

subsection \<open>\<open>retrieve_int\<close> and \<open>retrieve_short\<close>\<close>

definition retrieve_int :: "conn \<Rightarrow> (error + int) \<times> conn" where
  "retrieve_int c =
     (case retrieve_buffer c 4 of
        (Inl e, c') \<Rightarrow> (Inl e, c')
      | (Inr data, c') \<Rightarrow> (unpack_i data, c'))"

definition retrieve_short :: "conn \<Rightarrow> (error + int) \<times> conn" where
  "retrieve_short c =
     (case retrieve_buffer c 2 of
        (Inl e, c') \<Rightarrow> (Inl e, c')
      | (Inr data, c') \<Rightarrow> (unpack_h data, c'))"

subsection \<open>\<open>bytes.decode("utf8")\<close>\<close>

text \<open>
  Python's strict UTF-8 decoder: the well-formed byte sequences of the Unicode standard
  (no overlong forms, no surrogates, nothing above U+10FFFF). \<open>None\<close> is
  \<open>UnicodeDecodeError\<close>.
\<close>

definition is_cont :: "nat \<Rightarrow> bool" where
  "is_cont b \<longleftrightarrow> 128 \<le> b \<and> b \<le> 191"

fun utf8_code_points :: "nat list \<Rightarrow> nat list option" where
  "utf8_code_points [] = Some []"
| "utf8_code_points (b # bs) =
     (if b < 128 then map_option ((#) b) (utf8_code_points bs)
      else if 194 \<le> b \<and> b \<le> 223 then
        (case bs of
           c1 # r \<Rightarrow>
             if is_cont c1
             then map_option ((#) ((b - 192) * 64 + (c1 - 128))) (utf8_code_points r)
             else None
         | _ \<Rightarrow> None)
      else if 224 \<le> b \<and> b \<le> 239 then
        (case bs of
           c1 # c2 # r \<Rightarrow>
             if (if b = 224 then 160 else 128) \<le> c1 \<and> c1 \<le> (if b = 237 then 159 else 191)
                \<and> is_cont c2
             then map_option ((#) ((b - 224) * 4096 + (c1 - 128) * 64 + (c2 - 128)))
                    (utf8_code_points r)
             else None
         | _ \<Rightarrow> None)
      else if 240 \<le> b \<and> b \<le> 244 then
        (case bs of
           c1 # c2 # c3 # r \<Rightarrow>
             if (if b = 240 then 144 else 128) \<le> c1 \<and> c1 \<le> (if b = 244 then 143 else 191)
                \<and> is_cont c2 \<and> is_cont c3
             then map_option
                    ((#) ((b - 240) * 262144 + (c1 - 128) * 4096 + (c2 - 128) * 64 + (c3 - 128)))
                    (utf8_code_points r)
             else None
         | _ \<Rightarrow> None)
      else None)"

definition decode_utf8 :: "bytes \<Rightarrow> error + pystr" where
  "decode_utf8 data =
     (case utf8_code_points (map unat data) of
        None \<Rightarrow> Inl DecodeError
      | Some s \<Rightarrow> Inr s)"

subsection \<open>\<open>retrieve_utf8\<close>\<close>

definition retrieve_utf8 :: "conn \<Rightarrow> (error + pystr option) \<times> conn" where
  "retrieve_utf8 c =
     (case retrieve_short c of
        (Inl e, c') \<Rightarrow> (Inl e, c')
      | (Inr len, c') \<Rightarrow>
          if len < 0 then (Inr None, c')
          else
            (case retrieve_buffer c' len of
               (Inl e, c'') \<Rightarrow> (Inl e, c'')
             | (Inr data, c'') \<Rightarrow> (map_sum id Some (decode_utf8 data), c'')))"

section \<open>The class \<open>Input\<close>\<close>

subsection \<open>Dictionaries and the content list\<close>

text \<open>
  A Python \<open>dict\<close> keeps its keys in insertion order, and \<open>get_property\<close> iterates
  over \<open>items()\<close>, so the dictionary is an association list with distinct keys:
  \<open>d[k] = v\<close> replaces the value of an existing key in place and appends a new key.
\<close>

fun dict_set :: "('k \<times> 'v) list \<Rightarrow> 'k \<Rightarrow> 'v \<Rightarrow> ('k \<times> 'v) list" where
  "dict_set [] k v = [(k, v)]"
| "dict_set ((k', v') # d) k v =
     (if k' = k then (k', v) # d else (k', v') # dict_set d k v)"

definition dict_get :: "('k \<times> 'v option) list \<Rightarrow> 'k \<Rightarrow> 'v option" where
  \<comment> \<open>\<open>d.get(k)\<close>: the value, which may itself be \<open>None\<close>, or \<open>None\<close> for a missing key\<close>
  "dict_get d k = (case map_of d k of None \<Rightarrow> None | Some v \<Rightarrow> v)"

text \<open>
  Modelled from the spec: the class \<open>PairList\<close> of \<open>pair_list.py\<close>, which is not among
  the sources. The spec describes it as an ordered list of (key, value) pairs, the key an
  optional string and the value a raw byte buffer, with \<open>append(key?, value)\<close>,
  \<open>getByKey(key) -> value?\<close> returning the value of the first matching pair,
  \<open>getAt(index) -> value?\<close> and \<open>isEmpty() -> bool\<close>.
\<close>

type_synonym PairList = "(pystr option \<times> bytes) list"

definition PairList_add :: "PairList \<Rightarrow> pystr option \<Rightarrow> bytes \<Rightarrow> PairList" where
  \<comment> \<open>Modelled from the spec: \<open>append(key?, value)\<close>, insertion order is preserved\<close>
  "PairList_add pl key val = pl @ [(key, val)]"

definition PairList_get :: "PairList \<Rightarrow> pystr \<Rightarrow> bytes option" where
  \<comment> \<open>Modelled from the spec: lookups by key return the value of the first matching pair\<close>
  "PairList_get pl key = map_option snd (find (\<lambda>p. fst p = Some key) pl)"

definition PairList_value_at :: "PairList \<Rightarrow> nat \<Rightarrow> bytes option" where
  \<comment> \<open>Modelled from the spec: \<open>getAt(index) -> value?\<close>, the pair's value regardless of key\<close>
  "PairList_value_at pl i = (if i < length pl then Some (snd (pl ! i)) else None)"

definition PairList_is_empty :: "PairList \<Rightarrow> bool" where
  \<comment> \<open>Modelled from the spec: \<open>isEmpty() -> bool\<close>\<close>
  "PairList_is_empty pl \<longleftrightarrow> pl = []"

subsection \<open>The request object\<close>

record Input =
  function_name :: "pystr option"
  properties :: "(pystr option \<times> pystr option) list"
  content :: PairList

definition Input_init :: Input where
  "Input_init = \<lparr>function_name = None, properties = [], content = []\<rparr>"

subsection \<open>\<open>Input.read\<close>\<close>

text \<open>
  The two \<open>for _ in range(n)\<close> loops; \<open>range(n)\<close> is empty for \<open>n \<le> 0\<close>, so the
  loops run \<open>nat n\<close> times. An exception leaves the object as the assignments made so
  far have left it.
\<close>

fun read_properties :: "nat \<Rightarrow> Input \<Rightarrow> conn \<Rightarrow> (error + unit) \<times> Input \<times> conn" where
  "read_properties 0 self c = (Inr (), self, c)"
| "read_properties (Suc n) self c =
     (case retrieve_utf8 c of
        (Inl e, c1) \<Rightarrow> (Inl e, self, c1)
      | (Inr key, c1) \<Rightarrow>
          (case retrieve_utf8 c1 of
             (Inl e, c2) \<Rightarrow> (Inl e, self, c2)
           | (Inr val, c2) \<Rightarrow>
               read_properties n (self\<lparr>properties := dict_set (properties self) key val\<rparr>) c2))"

fun read_content :: "nat \<Rightarrow> Input \<Rightarrow> conn \<Rightarrow> (error + unit) \<times> Input \<times> conn" where
  "read_content 0 self c = (Inr (), self, c)"
| "read_content (Suc n) self c =
     (case retrieve_utf8 c of
        (Inl e, c1) \<Rightarrow> (Inl e, self, c1)
      | (Inr key, c1) \<Rightarrow>
          (case retrieve_int c1 of
             (Inl e, c2) \<Rightarrow> (Inl e, self, c2)
           | (Inr len, c2) \<Rightarrow>
               (case retrieve_buffer c2 len of
                  (Inl e, c3) \<Rightarrow> (Inl e, self, c3)
                | (Inr val, c3) \<Rightarrow>
                    read_content n (self\<lparr>content := PairList_add (content self) key val\<rparr>) c3)))"

definition read :: "Input \<Rightarrow> conn \<Rightarrow> (error + unit) \<times> Input \<times> conn" where
  "read self c =
     (case retrieve_short c of
        (Inl e, c1) \<Rightarrow> (Inl e, self, c1)
      | (Inr prop_size, c1) \<Rightarrow>
          (case read_properties (nat prop_size) self c1 of
             (Inl e, s1, c2) \<Rightarrow> (Inl e, s1, c2)
           | (Inr _, s1, c2) \<Rightarrow>
               (case retrieve_short c2 of
                  (Inl e, c3) \<Rightarrow> (Inl e, s1, c3)
                | (Inr content_size, c3) \<Rightarrow>
                    (case read_content (nat content_size) s1 c3 of
                       (Inl e, s2, c4) \<Rightarrow> (Inl e, s2, c4)
                     | (Inr _, s2, c4) \<Rightarrow>
                         (Inr (),
                          s2\<lparr>function_name := dict_get (properties s2) (Some (str_of ''handler''))\<rparr>,
                          c4)))))"

subsection \<open>\<open>Input.get_property\<close>\<close>

text \<open>
  \<open>str.lower()\<close>: on a string of ASCII characters it maps \<open>A\<close>..\<open>Z\<close> to \<open>a\<close>..\<open>z\<close>.
  On any other string it follows the Unicode case tables, which are the parameter
  \<open>ext\<close>.
\<close>

definition str_lower :: "(pystr \<Rightarrow> pystr) \<Rightarrow> pystr \<Rightarrow> pystr" where
  "str_lower ext s =
     (if list_all (\<lambda>ch. ch < 128) s
      then map (\<lambda>ch. if 65 \<le> ch \<and> ch \<le> 90 then ch + 32 else ch) s
      else ext s)"

text \<open>
  \<open>next((v for k, v in items if k.lower() == key.lower()), None)\<close>: the first match in
  insertion order. The generator is lazy, so \<open>k.lower()\<close> raises \<open>AttributeError\<close>
  on a \<open>None\<close> key only when that key comes before the first match.
\<close>

fun first_match ::
  "(pystr \<Rightarrow> pystr) \<Rightarrow> (pystr option \<times> pystr option) list \<Rightarrow> pystr \<Rightarrow> error + pystr option"
where
  "first_match ext [] key = Inr None"
| "first_match ext ((k, v) # items) key =
     (case k of
        None \<Rightarrow> Inl AttributeError
      | Some ks \<Rightarrow>
          if str_lower ext ks = str_lower ext key then Inr v else first_match ext items key)"

definition get_property ::
  "(pystr \<Rightarrow> pystr) \<Rightarrow> Input \<Rightarrow> pystr \<Rightarrow> (error + pystr option) \<times> Input" where
  "get_property ext self key = (first_match ext (properties self) key, self)"

subsection \<open>The content accessors\<close>

text \<open>
  The accessors return their result together with the object, as every method that could
  assign to \<open>self\<close> does in this model. \<open>ast.literal_eval\<close>, \<open>PIL.Image.open\<close> and
  \<open>from_nd_list\<close> are outside the module and are parameters: functions from the text or
  bytes they are given to a result or an error.
\<close>

definition get_as_bytes :: "Input \<Rightarrow> pystr option \<Rightarrow> (error + bytes option) \<times> Input" where
  "get_as_bytes self key =
     (if PairList_is_empty (content self) then (Inl EmptyInput, self)
      else
        (case key of
           Some k \<Rightarrow> (Inr (PairList_get (content self) k), self)
         | None \<Rightarrow>
             (case PairList_get (content self) (str_of ''data'') of
                None \<Rightarrow> (Inr (PairList_value_at (content self) 0), self)
              | Some ret \<Rightarrow> (Inr (Some ret), self))))"

definition bytes_decode :: "bytes option \<Rightarrow> error + pystr" where
  \<comment> \<open>\<open>b.decode("utf-8")\<close>, where \<open>b\<close> may be \<open>None\<close>\<close>
  "bytes_decode b = (case b of None \<Rightarrow> Inl AttributeError | Some data \<Rightarrow> decode_utf8 data)"

definition get_as_string :: "Input \<Rightarrow> pystr option \<Rightarrow> (error + pystr) \<times> Input" where
  "get_as_string self key =
     (case get_as_bytes self key of
        (Inl e, s) \<Rightarrow> (Inl e, s)
      | (Inr b, s) \<Rightarrow> (bytes_decode b, s))"

definition get_as_json ::
  "(pystr \<Rightarrow> error + 'j) \<Rightarrow> Input \<Rightarrow> pystr option \<Rightarrow> (error + 'j) \<times> Input" where
  "get_as_json literal_eval self key =
     (case get_as_bytes self key of
        (Inl e, s) \<Rightarrow> (Inl e, s)
      | (Inr b, s) \<Rightarrow>
          (case bytes_decode b of
             Inl e \<Rightarrow> (Inl e, s)
           | Inr txt \<Rightarrow> (literal_eval txt, s)))"

definition BytesIO :: "bytes option \<Rightarrow> bytes" where
  \<comment> \<open>\<open>io.BytesIO(None)\<close> is an empty buffer\<close>
  "BytesIO b = (case b of None \<Rightarrow> [] | Some data \<Rightarrow> data)"

definition get_as_image ::
  "(bytes \<Rightarrow> error + 'i) \<Rightarrow> Input \<Rightarrow> pystr option \<Rightarrow> (error + 'i) \<times> Input" where
  "get_as_image image_open self key =
     (case get_as_bytes self key of
        (Inl e, s) \<Rightarrow> (Inl e, s)
      | (Inr b, s) \<Rightarrow> (image_open (BytesIO b), s))"

definition get_as_numpy ::
  "(bytes option \<Rightarrow> error + 'n) \<Rightarrow> Input \<Rightarrow> pystr option \<Rightarrow> (error + 'n) \<times> Input" where
  "get_as_numpy from_nd_list self key =
     (case get_as_bytes self key of
        (Inl e, s) \<Rightarrow> (Inl e, s)
      | (Inr b, s) \<Rightarrow> (from_nd_list b, s))"

subsection \<open>\<open>Input.get_data\<close>\<close>

datatype ('j, 'i, 'n) data =
    Bytes "bytes option"
  | Text pystr
  | Json 'j
  | Image 'i
  | NdList 'n

definition startswith :: "pystr \<Rightarrow> pystr \<Rightarrow> bool" where
  "startswith s p \<longleftrightarrow> take (length p) s = p"

definition tagged :: "('a \<Rightarrow> 'b) \<Rightarrow> (error + 'a) \<times> Input \<Rightarrow> (error + 'b) \<times> Input" where
  \<comment> \<open>the value an accessor returns, as a value of the union \<open>get_data\<close> returns\<close>
  "tagged f r = (map_sum id f (fst r), snd r)"

definition get_data ::
  "(pystr \<Rightarrow> pystr) \<Rightarrow> (pystr \<Rightarrow> error + 'j) \<Rightarrow> (bytes \<Rightarrow> error + 'i) \<Rightarrow>
   (bytes option \<Rightarrow> error + 'n) \<Rightarrow> Input \<Rightarrow> pystr option \<Rightarrow>
   (error + ('j, 'i, 'n) data) \<times> Input" where
  "get_data ext literal_eval image_open from_nd_list self key =
     (case get_property ext self (str_of ''content-type'') of
        (Inl e, s) \<Rightarrow> (Inl e, s)
      | (Inr content_type, s) \<Rightarrow>
          if content_type = Some (str_of ''tensor/ndlist'') then
            tagged NdList (get_as_numpy from_nd_list s key)
          else if content_type = Some (str_of ''application/json'') then
            tagged Json (get_as_json literal_eval s key)
          else if content_type \<noteq> None \<and> startswith (the content_type) (str_of ''text/'') then
            tagged Text (get_as_string s key)
          else if content_type \<noteq> None \<and> startswith (the content_type) (str_of ''image/'') then
            tagged Image (get_as_image image_open s key)
          else
            tagged Bytes (get_as_bytes s key))"

section \<open>The wire format\<close>

text \<open>
  A connection delivers the bytes \<open>bs\<close> when its pending packets are non-empty and
  their concatenation is \<open>bs\<close>, however the bytes are split into packets.
\<close>


definition delivers :: "conn \<Rightarrow> bytes \<Rightarrow> bool" where
  "delivers c bs \<longleftrightarrow> [] \<notin> set (pending c) \<and> concat (pending c) = bs"

subsection \<open>The dispatch table of the specification\<close>

text \<open>
  The specification of \<open>getData\<close>, in its own words: a closed set of variants, selected by a
  mapping from the declared content type to a variant, with raw bytes as the default, and
  one extraction per variant. \<open>get_data\<close> above is the code; these two definitions are
  what it is compared with.
\<close>

datatype variant = RawBytes | NumericArrays | StructuredRecord | PlainText | DecodedImage

definition spec_route :: "pystr option \<Rightarrow> variant" where
  "spec_route ct =
     (case ct of
        None \<Rightarrow> RawBytes
      | Some v \<Rightarrow>
          if v = str_of ''tensor/ndlist'' then NumericArrays
          else if v = str_of ''application/json'' then StructuredRecord
          else if startswith v (str_of ''text/'') then PlainText
          else if startswith v (str_of ''image/'') then DecodedImage
          else RawBytes)"

definition spec_dispatch ::
  "(pystr \<Rightarrow> error + 'j) \<Rightarrow> (bytes \<Rightarrow> error + 'i) \<Rightarrow> (bytes option \<Rightarrow> error + 'n) \<Rightarrow>
   variant \<Rightarrow> Input \<Rightarrow> pystr option \<Rightarrow> (error + ('j, 'i, 'n) data) \<times> Input" where
  "spec_dispatch literal_eval image_open from_nd_list var self key =
     (case var of
        NumericArrays \<Rightarrow> tagged NdList (get_as_numpy from_nd_list self key)
      | StructuredRecord \<Rightarrow> tagged Json (get_as_json literal_eval self key)
      | PlainText \<Rightarrow> tagged Text (get_as_string self key)
      | DecodedImage \<Rightarrow> tagged Image (get_as_image image_open self key)
      | RawBytes \<Rightarrow> tagged Bytes (get_as_bytes self key))"

text \<open>
  The wire format of the specification: network byte order, two's complement, no padding.
\<close>

definition int16_be :: "int \<Rightarrow> bytes" where
  "int16_be i = [word_of_int (i div 2 ^ 8), word_of_int i]"

definition int32_be :: "int \<Rightarrow> bytes" where
  "int32_be i =
     [word_of_int (i div 2 ^ 24), word_of_int (i div 2 ^ 16), word_of_int (i div 2 ^ 8),
      word_of_int i]"

text \<open>
  A length-prefixed string on the wire: a negative length and no bytes (no value), or the
  length and that many bytes. It is text when the bytes are well-formed UTF-8.
\<close>

datatype wire_str = Null int | Str bytes

fun enc_str :: "wire_str \<Rightarrow> bytes" where
  "enc_str (Null len) = int16_be len"
| "enc_str (Str data) = int16_be (int (length data)) @ data"

fun wf_str :: "wire_str \<Rightarrow> bool" where
  "wf_str (Null len) \<longleftrightarrow> - 32768 \<le> len \<and> len < 0"
| "wf_str (Str data) \<longleftrightarrow> length data < 32768"

fun text_of :: "wire_str \<Rightarrow> pystr option" where
  "text_of (Null len) = None"
| "text_of (Str data) = utf8_code_points (map unat data)"

fun is_text :: "wire_str \<Rightarrow> bool" where
  "is_text (Null len) \<longleftrightarrow> True"
| "is_text (Str data) \<longleftrightarrow> utf8_code_points (map unat data) \<noteq> None"

text \<open>
  A property is a key and a value, both strings. A content pair is a key, a 32-bit length
  and the bytes; a length of zero or less is followed by no bytes.
\<close>

type_synonym wire_prop = "wire_str \<times> wire_str"
type_synonym wire_item = "wire_str \<times> int \<times> bytes"

fun enc_prop :: "wire_prop \<Rightarrow> bytes" where
  "enc_prop (key, val) = enc_str key @ enc_str val"

fun wf_prop :: "wire_prop \<Rightarrow> bool" where
  "wf_prop (key, val) \<longleftrightarrow> wf_str key \<and> is_text key \<and> wf_str val \<and> is_text val"

fun enc_item :: "wire_item \<Rightarrow> bytes" where
  "enc_item (key, len, data) = enc_str key @ int32_be len @ data"

fun wf_item :: "wire_item \<Rightarrow> bool" where
  "wf_item (key, len, data) \<longleftrightarrow>
     wf_str key \<and> is_text key \<and> - 2147483648 \<le> len \<and> len < 2147483648 \<and>
     length data = nat len"

text \<open>
  A frame: the property count and the properties, the content count and the content pairs.
  A count of zero or less is followed by no entries.
\<close>

record frame =
  prop_count :: int
  props :: "wire_prop list"
  content_count :: int
  pairs :: "wire_item list"

definition encode_frame :: "frame \<Rightarrow> bytes" where
  "encode_frame f =
     int16_be (prop_count f) @ concat (map enc_prop (props f)) @
     int16_be (content_count f) @ concat (map enc_item (pairs f))"

definition wf_frame :: "frame \<Rightarrow> bool" where
  "wf_frame f \<longleftrightarrow>
     - 32768 \<le> prop_count f \<and> prop_count f < 32768 \<and>
     length (props f) = nat (prop_count f) \<and> list_all wf_prop (props f) \<and>
     - 32768 \<le> content_count f \<and> content_count f < 32768 \<and>
     length (pairs f) = nat (content_count f) \<and> list_all wf_item (pairs f)"

text \<open>
  What the specification says the decoder stores: every property assigned in wire order,
  every content pair appended in wire order.
\<close>

definition decoded_props :: "wire_prop list \<Rightarrow> (pystr option \<times> pystr option) list" where
  "decoded_props ps = map (\<lambda>p. (text_of (fst p), text_of (snd p))) ps"

definition decoded_items :: "wire_item list \<Rightarrow> PairList" where
  "decoded_items its = map (\<lambda>(key, len, data). (text_of key, data)) its"

definition assign_all ::
  "('k \<times> 'v) list \<Rightarrow> ('k \<times> 'v) list \<Rightarrow> ('k \<times> 'v) list" where
  "assign_all d kvs = foldl (\<lambda>d kv. dict_set d (fst kv) (snd kv)) d kvs"

text \<open>
  What \<open>read\<close> never undoes, whether it returns or raises: the function name is only
  assigned at the very end, content pairs are only appended, and property keys are only
  added (the dictionary keeps its keys distinct).
\<close>

definition keeps :: "Input \<Rightarrow> Input \<Rightarrow> bool" where
  "keeps self s \<longleftrightarrow>
     function_name s = function_name self \<and>
     (\<exists>more. content s = content self @ more) \<and>
     set (map fst (properties self)) \<subseteq> set (map fst (properties s)) \<and>
     (distinct (map fst (properties self)) \<longrightarrow> distinct (map fst (properties s)))"

text \<open>
  The UTF-8 encoding of the Unicode standard, to compare the decoder with: a scalar value
  is a code point that is not a surrogate, and is encoded in one to four bytes.
\<close>

definition scalar_value :: "nat \<Rightarrow> bool" where
  "scalar_value cp \<longleftrightarrow> cp < 55296 \<or> (57344 \<le> cp \<and> cp < 1114112)"

definition utf8_bytes :: "nat \<Rightarrow> nat list" where
  "utf8_bytes cp =
     (if cp < 128 then [cp]
      else if cp < 2048 then [192 + cp div 64, 128 + cp mod 64]
      else if cp < 65536 then [224 + cp div 4096, 128 + cp div 64 mod 64, 128 + cp mod 64]
      else [240 + cp div 262144, 128 + cp div 4096 mod 64, 128 + cp div 64 mod 64,
            128 + cp mod 64])"

definition utf8_encode :: "pystr \<Rightarrow> nat list" where
  "utf8_encode s = concat (map utf8_bytes s)"

subsection \<open>Streams on which decoding fails\<close>

text \<open>
  A string that cannot be read: the stream is closed after the first \<open>k\<close> bytes of
  its encoding, or its bytes are all there and are not UTF-8. After a truncated string the
  stream holds nothing more.
\<close>

datatype bad_str = Truncated wire_str nat | Invalid bytes

fun enc_bad :: "bad_str \<Rightarrow> bytes" where
  "enc_bad (Truncated w k) = take k (enc_str w)"
| "enc_bad (Invalid data) = enc_str (Str data)"

fun wf_bad :: "bad_str \<Rightarrow> bool" where
  "wf_bad (Truncated w k) \<longleftrightarrow> wf_str w \<and> k < length (enc_str w)"
| "wf_bad (Invalid data) \<longleftrightarrow> length data < 32768 \<and> utf8_code_points (map unat data) = None"

fun err_bad :: "bad_str \<Rightarrow> error" where
  "err_bad (Truncated w k) = Disconnected"
| "err_bad (Invalid data) = DecodeError"

fun bad_tail :: "bad_str \<Rightarrow> bytes \<Rightarrow> bytes" where
  "bad_tail (Truncated w k) rest = []"
| "bad_tail (Invalid data) rest = rest"

text \<open>
  The request with the given properties assigned and content pairs appended; the function
  name is the one it had.
\<close>

definition stored :: "Input \<Rightarrow> wire_prop list \<Rightarrow> wire_item list \<Rightarrow> Input" where
  "stored self ps its =
     self\<lparr>properties := assign_all (properties self) (decoded_props ps),
          content := content self @ decoded_items its\<rparr>"

text \<open>
  The streams on which a primitive read of the decoder fails, by the read that fails: the
  property count, a property's key or value, the content count, a content pair's key, its
  length or its bytes. Each holds the sections and entries read before that point,
  well-formed, and then what is missing or invalid.
\<close>

datatype failing =
    NoPropCount bytes
  | BadProp int "wire_prop list" "wire_str option" bad_str bytes
  | NoContentCount int "wire_prop list" bytes
  | BadItemKey int "wire_prop list" int "wire_item list" bad_str bytes
  | NoItemLength int "wire_prop list" int "wire_item list" wire_str bytes
  | NoItemData int "wire_prop list" int "wire_item list" wire_str int bytes

definition props_section :: "int \<Rightarrow> wire_prop list \<Rightarrow> bytes" where
  "props_section pc ps = int16_be pc @ concat (map enc_prop ps)"

definition content_section :: "int \<Rightarrow> wire_item list \<Rightarrow> bytes" where
  "content_section cc its = int16_be cc @ concat (map enc_item its)"

definition wf_props_section :: "int \<Rightarrow> wire_prop list \<Rightarrow> bool" where
  "wf_props_section pc ps \<longleftrightarrow> - 32768 \<le> pc \<and> pc < 32768 \<and> list_all wf_prop ps"

definition wf_content_section :: "int \<Rightarrow> wire_item list \<Rightarrow> bool" where
  "wf_content_section cc its \<longleftrightarrow> - 32768 \<le> cc \<and> cc < 32768 \<and> list_all wf_item its"

fun enc_failing :: "failing \<Rightarrow> bytes" where
  "enc_failing (NoPropCount part) = part"
| "enc_failing (BadProp pc ps key b rest) =
     props_section pc ps @ (case key of None \<Rightarrow> [] | Some k \<Rightarrow> enc_str k) @
     enc_bad b @ bad_tail b rest"
| "enc_failing (NoContentCount pc ps part) = props_section pc ps @ part"
| "enc_failing (BadItemKey pc ps cc its b rest) =
     props_section pc ps @ content_section cc its @ enc_bad b @ bad_tail b rest"
| "enc_failing (NoItemLength pc ps cc its key part) =
     props_section pc ps @ content_section cc its @ enc_str key @ part"
| "enc_failing (NoItemData pc ps cc its key len part) =
     props_section pc ps @ content_section cc its @ enc_str key @ int32_be len @ part"

fun wf_failing :: "failing \<Rightarrow> bool" where
  "wf_failing (NoPropCount part) \<longleftrightarrow> length part < 2"
| "wf_failing (BadProp pc ps key b rest) \<longleftrightarrow>
     wf_props_section pc ps \<and> length ps < nat pc \<and>
     (case key of None \<Rightarrow> True | Some k \<Rightarrow> wf_str k \<and> is_text k) \<and> wf_bad b"
| "wf_failing (NoContentCount pc ps part) \<longleftrightarrow>
     wf_props_section pc ps \<and> length ps = nat pc \<and> length part < 2"
| "wf_failing (BadItemKey pc ps cc its b rest) \<longleftrightarrow>
     wf_props_section pc ps \<and> length ps = nat pc \<and>
     wf_content_section cc its \<and> length its < nat cc \<and> wf_bad b"
| "wf_failing (NoItemLength pc ps cc its key part) \<longleftrightarrow>
     wf_props_section pc ps \<and> length ps = nat pc \<and>
     wf_content_section cc its \<and> length its < nat cc \<and>
     wf_str key \<and> is_text key \<and> length part < 4"
| "wf_failing (NoItemData pc ps cc its key len part) \<longleftrightarrow>
     wf_props_section pc ps \<and> length ps = nat pc \<and>
     wf_content_section cc its \<and> length its < nat cc \<and>
     wf_str key \<and> is_text key \<and> - 2147483648 \<le> len \<and> len < 2147483648 \<and>
     int (length part) < len"

fun err_failing :: "failing \<Rightarrow> error" where
  "err_failing (NoPropCount part) = Disconnected"
| "err_failing (BadProp pc ps key b rest) = err_bad b"
| "err_failing (NoContentCount pc ps part) = Disconnected"
| "err_failing (BadItemKey pc ps cc its b rest) = err_bad b"
| "err_failing (NoItemLength pc ps cc its key part) = Disconnected"
| "err_failing (NoItemData pc ps cc its key len part) = Disconnected"

fun props_read :: "failing \<Rightarrow> wire_prop list" where
  "props_read (NoPropCount part) = []"
| "props_read (BadProp pc ps key b rest) = ps"
| "props_read (NoContentCount pc ps part) = ps"
| "props_read (BadItemKey pc ps cc its b rest) = ps"
| "props_read (NoItemLength pc ps cc its key part) = ps"
| "props_read (NoItemData pc ps cc its key len part) = ps"

fun pairs_read :: "failing \<Rightarrow> wire_item list" where
  "pairs_read (NoPropCount part) = []"
| "pairs_read (BadProp pc ps key b rest) = []"
| "pairs_read (NoContentCount pc ps part) = []"
| "pairs_read (BadItemKey pc ps cc its b rest) = its"
| "pairs_read (NoItemLength pc ps cc its key part) = its"
| "pairs_read (NoItemData pc ps cc its key len part) = its"

section \<open>Properties of the stream primitives\<close>

lemma recv_length: "recv c n = (pkt, c') \<Longrightarrow> length pkt \<le> nat n"
  by (auto simp: recv_def split: list.splits)

lemma retrieve_buffer_loop_length:
  "retrieve_buffer_loop c len data = (Inr out, c') \<Longrightarrow> length out = length data + nat len"
proof (induction c len data rule: retrieve_buffer_loop.induct)
  case (1 c len data)
  show ?case
  proof (cases "len > 0")
    case False
    with "1.prems" show ?thesis by simp
  next
    case True
    obtain pkt c1 where r: "recv c len = (pkt, c1)" by (cases "recv c len")
    from recv_length[OF r] have le: "length pkt \<le> nat len" .
    from "1.prems" True r have ne: "length pkt \<noteq> 0"
      by (auto split: if_splits)
    from "1.prems" True r ne
    have "retrieve_buffer_loop c1 (len - int (length pkt)) (data @ pkt) = (Inr out, c')"
      by simp
    from "1.IH"[OF True r[symmetric] ne this] le True show ?thesis by simp
  qed
qed

lemma retrieve_buffer_loop_delivers:
  "delivers c (bs @ rest) \<Longrightarrow> len = int (length bs) \<Longrightarrow>
   \<exists>c'. retrieve_buffer_loop c len data = (Inr (data @ bs), c') \<and> delivers c' rest"
proof (induction c len data arbitrary: bs rule: retrieve_buffer_loop.induct)
  case (1 c len data)
  show ?case
  proof (cases "len > 0")
    case False
    with "1.prems" show ?thesis by simp
  next
    case True
    with "1.prems" obtain p ps where pc: "pending c = p # ps" and pne: "p \<noteq> []"
      by (cases "pending c") (auto simp: delivers_def)
    define pkt where "pkt = take (nat len) p"
    define c1 where "c1 = c\<lparr>pending := (if length p \<le> nat len then ps else drop (nat len) p # ps),
             reads := Suc (reads c)\<rparr>"
    have r: "recv c len = (pkt, c1)" by (simp add: recv_def pc pkt_def c1_def)
    have ne: "length pkt \<noteq> 0" using True pne by (simp add: pkt_def)
    have lp: "length pkt \<le> length bs" using "1.prems"(2) by (simp add: pkt_def)
    have "pkt @ concat (pending c1) = concat (pending c)"
      by (simp add: pc pkt_def c1_def flip: append_assoc)
    then have cc: "pkt @ concat (pending c1) = bs @ rest"
      using "1.prems"(1) by (simp add: delivers_def)
    then have pk: "pkt = take (length pkt) bs" using lp
      by (metis append_eq_conv_conj take_append append_Nil2 diff_is_0_eq' take0)
    from cc pk have rest1: "concat (pending c1) = drop (length pkt) bs @ rest"
      by (metis append_assoc append_take_drop_id same_append_eq)
    have d1: "delivers c1 (drop (length pkt) bs @ rest)"
      using "1.prems"(1) pc rest1 by (auto simp: delivers_def c1_def)
    have l1: "len - int (length pkt) = int (length (drop (length pkt) bs))"
      using "1.prems"(2) lp by simp
    from "1.IH"[OF True r[symmetric] ne d1 l1] obtain c' where
      a: "retrieve_buffer_loop c1 (len - int (length pkt)) (data @ pkt) =
           (Inr ((data @ pkt) @ drop (length pkt) bs), c')"
      and b: "delivers c' rest" by blast
    have "pkt @ drop (length pkt) bs = bs" using pk by (metis append_take_drop_id)
    moreover have "retrieve_buffer_loop c len data = retrieve_buffer_loop c1 (len - int (length pkt)) (data @ pkt)"
      using True r ne by simp
    ultimately show ?thesis using a b by simp
  qed
qed

lemma retrieve_buffer_loop_disconnected:
  "[] \<notin> set ps \<Longrightarrow> int (length (concat ps)) < len \<Longrightarrow> pending c = ps @ rest \<Longrightarrow>
   rest = [] \<or> hd rest = [] \<Longrightarrow>
   fst (retrieve_buffer_loop c len data) = Inl Disconnected"
proof (induction c len data arbitrary: ps rule: retrieve_buffer_loop.induct)
  case (1 c len data)
  from "1.prems"(2) have True: "len > 0" by simp
  show ?case
  proof (cases ps)
    case Nil
    with "1.prems" have "pending c = [] \<or> (\<exists>r. pending c = [] # r)"
      by (cases rest) auto
    then have "fst (recv c len) = []" by (auto simp: recv_def)
    then show ?thesis using True by (simp add: case_prod_beta)
  next
    case (Cons p ps')
    with "1.prems" have pc: "pending c = p # ps' @ rest" and pne: "p \<noteq> []" by auto
    define pkt where "pkt = take (nat len) p"
    define c1 where "c1 = c\<lparr>pending := (if length p \<le> nat len then ps' @ rest else drop (nat len) p # ps' @ rest),
             reads := Suc (reads c)\<rparr>"
    have r: "recv c len = (pkt, c1)" by (simp add: recv_def pc pkt_def c1_def)
    have ne: "length pkt \<noteq> 0" using True pne by (simp add: pkt_def)
    define qs where "qs = (if length p \<le> nat len then ps' else drop (nat len) p # ps')"
    have q1: "[] \<notin> set qs" using "1.prems"(1) Cons by (auto simp: qs_def)
    have q2: "pending c1 = qs @ rest" by (simp add: c1_def qs_def)
    have cc: "concat ps = pkt @ concat qs" by (simp add: Cons pkt_def qs_def)
    have q3: "int (length (concat qs)) < len - int (length pkt)"
      using "1.prems"(2) cc by simp
    have "retrieve_buffer_loop c len data = retrieve_buffer_loop c1 (len - int (length pkt)) (data @ pkt)"
      using True r ne by simp
    with "1.IH"[OF True r[symmetric] ne q1 q3 q2 "1.prems"(4)] show ?thesis by simp
  qed
qed

lemma retrieve_buffer_delivers:
  "delivers c (bs @ rest) \<Longrightarrow> len = int (length bs) \<Longrightarrow>
   \<exists>c'. retrieve_buffer c len = (Inr bs, c') \<and> delivers c' rest"
  using retrieve_buffer_loop_delivers[of c bs rest len "[]"] by (simp add: retrieve_buffer_def)

section \<open>Claims about \<open>retrieve_buffer\<close>\<close>

text \<open>
  Claim C5. \<open>retrieve_buffer\<close> never returns a short buffer: whenever it returns, the
  buffer has exactly \<open>n\<close> bytes (none for \<open>n \<le> 0\<close>). On a connection that delivers
  fewer than \<open>n\<close> bytes in non-empty packets and is then closed (no packet left, or a
  read that returns no bytes) it raises the disconnect error. On a connection that delivers
  at least \<open>n\<close> bytes it returns the first \<open>n\<close> of them, however they are split into
  packets.
\<close>

theorem retrieve_buffer_exact_or_disconnected:
  "(retrieve_buffer c n = (Inr out, c') \<longrightarrow> length out = nat n) \<and>
   ([] \<notin> set ps \<and> int (length (concat ps)) < n \<and> pending c = ps @ rest \<and>
      (rest = [] \<or> hd rest = [])
    \<longrightarrow> fst (retrieve_buffer c n) = Inl Disconnected) \<and>
   (delivers c (bs @ rest2) \<and> n = int (length bs)
    \<longrightarrow> fst (retrieve_buffer c n) = Inr bs)"
  using retrieve_buffer_loop_length[of c n "[]" out c']
        retrieve_buffer_loop_disconnected[of ps n c rest "[]"]
        retrieve_buffer_delivers[of c bs rest2 n]
  by (auto simp: retrieve_buffer_def)

theorem retrieve_buffer_exact_or_disconnected_witness:
  "retrieve_buffer \<lparr>pending = [[1, 2], [3, 4]], reads = 0\<rparr> 3
     = (Inr [1, 2, 3], \<lparr>pending = [[4]], reads = 2\<rparr>) \<and>
   length [1, 2, 3 :: byte] = nat 3 \<and>
   fst (retrieve_buffer \<lparr>pending = [[1], [2]], reads = 0\<rparr> 3) = Inl Disconnected"
proof -
  have a: "retrieve_buffer \<lparr>pending = [[1, 2], [3, 4]], reads = 0\<rparr> 3
     = (Inr [1, 2, 3], \<lparr>pending = [[4]], reads = 2\<rparr>)"
    by (simp add: retrieve_buffer_def recv_def)
  have b: "[] \<notin> set [[1], [2 :: byte]] \<and> int (length (concat [[1], [2 :: byte]])) < 3 \<and>
     pending \<lparr>pending = [[1], [2]], reads = 0\<rparr> = [[1], [2]] @ [] \<and>
      ([] = ([] :: bytes list) \<or> hd [] = ([] :: bytes))" by simp
  from retrieve_buffer_exact_or_disconnected[of "\<lparr>pending = [[1, 2], [3, 4]], reads = 0\<rparr>" 3
      "[1, 2, 3]" "\<lparr>pending = [[4]], reads = 2\<rparr>" "[]" "[]"] a
  have c: "length [1, 2, 3 :: byte] = nat 3" by blast
  from retrieve_buffer_exact_or_disconnected[of "\<lparr>pending = [[1], [2]], reads = 0\<rparr>" 3
      "[]" "\<lparr>pending = [], reads = 0\<rparr>" "[[1], [2]]" "[]"] b
  have d: "fst (retrieve_buffer \<lparr>pending = [[1], [2]], reads = 0\<rparr> 3) = Inl Disconnected"
    by blast
  from a c d show ?thesis by blast
qed

text \<open>
  Claim C10. For a length \<open>len \<le> 0\<close>, \<open>retrieve_buffer\<close> returns the empty buffer and
  leaves the connection as it was, the count of \<open>recv\<close> calls included: it reads nothing.
  So an iteration of the content loop whose length prefix is zero or negative appends the
  pair with an empty value and goes on; it raises nothing.
\<close>

theorem nonpositive_length_reads_nothing:
  "len \<le> 0 \<longrightarrow>
     retrieve_buffer c len = (Inr [], c) \<and>
     (retrieve_utf8 c0 = (Inr key, c1) \<and> retrieve_int c1 = (Inr len, c2) \<longrightarrow>
        read_content (Suc n) self c0 =
          read_content n (self\<lparr>content := PairList_add (content self) key []\<rparr>) c2)"
  by (simp add: retrieve_buffer_def)

theorem nonpositive_length_reads_nothing_witness:
  "retrieve_buffer \<lparr>pending = [[7]], reads = 0\<rparr> (- 5) = (Inr [], \<lparr>pending = [[7]], reads = 0\<rparr>) \<and>
   read_content (Suc 0) Input_init \<lparr>pending = [[255, 255, 255, 255, 255, 254]], reads = 0\<rparr> =
     (Inr (), Input_init\<lparr>content := [(None, [])]\<rparr>, \<lparr>pending = [], reads = 2\<rparr>)"
proof -
  have k: "retrieve_utf8 \<lparr>pending = [[255, 255, 255, 255, 255, 254]], reads = 0\<rparr>
       = (Inr None, \<lparr>pending = [[255, 255, 255, 254]], reads = 1\<rparr>)"
    by (simp add: retrieve_utf8_def retrieve_short_def retrieve_buffer_def recv_def
          unpack_h_def be_nat_def)
  have l: "retrieve_int \<lparr>pending = [[255, 255, 255, 254]], reads = 1\<rparr>
       = (Inr (- 2), \<lparr>pending = [], reads = 2\<rparr>)"
    by (simp add: retrieve_int_def retrieve_buffer_def recv_def unpack_i_def be_nat_def)
  have m: "(- 2 :: int) \<le> 0" by simp
  from nonpositive_length_reads_nothing[of "- 2" "\<lparr>pending = [[7]], reads = 0\<rparr>"
      "\<lparr>pending = [[255, 255, 255, 255, 255, 254]], reads = 0\<rparr>" None
      "\<lparr>pending = [[255, 255, 255, 254]], reads = 1\<rparr>" "\<lparr>pending = [], reads = 2\<rparr>" 0 Input_init]
    k l m
  have "read_content (Suc 0) Input_init \<lparr>pending = [[255, 255, 255, 255, 255, 254]], reads = 0\<rparr> =
          read_content 0 (Input_init\<lparr>content := PairList_add (content Input_init) None []\<rparr>)
            \<lparr>pending = [], reads = 2\<rparr>" by blast
  moreover have "retrieve_buffer \<lparr>pending = [[7]], reads = 0\<rparr> (- 5) = (Inr [], \<lparr>pending = [[7]], reads = 0\<rparr>)"
    using nonpositive_length_reads_nothing[of "- 5" "\<lparr>pending = [[7]], reads = 0\<rparr>"] by simp
  ultimately show ?thesis by (simp add: PairList_add_def Input_init_def)
qed

section \<open>Claims about the content accessors\<close>

lemma find_split:
  "(\<forall>p \<in> set pre. \<not> P p) \<Longrightarrow> P x \<Longrightarrow> find P (pre @ x # post) = Some x"
  by (induction pre) auto

lemma find_none: "(\<forall>p \<in> set xs. \<not> P p) \<Longrightarrow> find P xs = None"
  by (induction xs) auto

lemma PairList_get_first:
  "Some k \<notin> fst ` set pre \<Longrightarrow> PairList_get (pre @ (Some k, v) # post) k = Some v"
  unfolding PairList_get_def by (subst find_split) force+

lemma PairList_get_absent:
  "Some k \<notin> fst ` set pl \<Longrightarrow> PairList_get pl k = None"
  unfolding PairList_get_def by (subst find_none) force+

text \<open>
  Claim C7. On a request whose content list is empty, \<open>get_as_bytes\<close> raises the
  "input is empty" exception, whether a key is given or not; it returns no value, so in
  particular not \<open>None\<close>.
\<close>

theorem get_as_bytes_empty:
  "content self = [] \<longrightarrow> fst (get_as_bytes self key) = Inl EmptyInput"
  by (simp add: get_as_bytes_def PairList_is_empty_def)

theorem get_as_bytes_empty_witness:
  "fst (get_as_bytes Input_init None) = Inl EmptyInput \<and>
   fst (get_as_bytes Input_init (Some (str_of ''data''))) = Inl EmptyInput"
  using get_as_bytes_empty[of Input_init None]
        get_as_bytes_empty[of Input_init "Some (str_of ''data'')"]
  by (simp add: Input_init_def)

text \<open>
  Claim C8. On a request with non-empty content, \<open>get_as_bytes\<close> without a key returns
  the value of the first pair whose key is \<open>data\<close>, and the value of the first pair of
  the list when no pair has that key; with a key it returns the value of the first pair
  with that key, and \<open>None\<close> when no pair has it.
\<close>

theorem get_as_bytes_lookup:
  "content self \<noteq> [] \<longrightarrow>
     (content self = pre @ (Some (str_of ''data''), v) # post \<and>
        Some (str_of ''data'') \<notin> fst ` set pre
      \<longrightarrow> fst (get_as_bytes self None) = Inr (Some v)) \<and>
     (Some (str_of ''data'') \<notin> fst ` set (content self)
      \<longrightarrow> fst (get_as_bytes self None) = Inr (Some (snd (hd (content self))))) \<and>
     (content self = pre @ (Some k, v) # post \<and> Some k \<notin> fst ` set pre
      \<longrightarrow> fst (get_as_bytes self (Some k)) = Inr (Some v)) \<and>
     (Some k \<notin> fst ` set (content self)
      \<longrightarrow> fst (get_as_bytes self (Some k)) = Inr None)"
  by (auto simp: get_as_bytes_def PairList_is_empty_def PairList_get_first PairList_get_absent
        PairList_value_at_def hd_conv_nth)

theorem get_as_bytes_lookup_witness:
  "fst (get_as_bytes \<lparr>function_name = None, properties = [],
          content = [(Some (str_of ''other''), [88]), (Some (str_of ''data''), [89])]\<rparr> None)
     = Inr (Some [89]) \<and>
   fst (get_as_bytes \<lparr>function_name = None, properties = [],
          content = [(Some (str_of ''other''), [88])]\<rparr> None)
     = Inr (Some [88]) \<and>
   fst (get_as_bytes \<lparr>function_name = None, properties = [],
          content = [(Some (str_of ''other''), [88]), (Some (str_of ''data''), [89])]\<rparr>
          (Some (str_of ''other'')))
     = Inr (Some [88]) \<and>
   fst (get_as_bytes \<lparr>function_name = None, properties = [],
          content = [(Some (str_of ''other''), [88])]\<rparr> (Some (str_of ''data'')))
     = Inr None"
proof -
  let ?o = "(Some (str_of ''other''), [88 :: byte])"
  let ?d = "(Some (str_of ''data''), [89 :: byte])"
  let ?s1 = "\<lparr>function_name = None, properties = [], content = [?o, ?d]\<rparr>"
  let ?s2 = "\<lparr>function_name = None, properties = [], content = [?o]\<rparr>"
  have n: "str_of ''other'' \<noteq> str_of ''data''" by (simp add: str_of_def)
  have a: "fst (get_as_bytes ?s1 None) = Inr (Some [89])"
    using get_as_bytes_lookup[of ?s1 "[?o]" "[89]" "[]" "str_of ''other''"] n by simp
  have b: "fst (get_as_bytes ?s2 None) = Inr (Some [88])"
    using get_as_bytes_lookup[of ?s2 "[]" "[]" "[]" "str_of ''data''"] n by simp
  have c: "fst (get_as_bytes ?s1 (Some (str_of ''other''))) = Inr (Some [88])"
    using get_as_bytes_lookup[of ?s1 "[]" "[88]" "[?d]" "str_of ''other''"] n by simp
  have d: "fst (get_as_bytes ?s2 (Some (str_of ''data''))) = Inr None"
    using get_as_bytes_lookup[of ?s2 "[]" "[]" "[]" "str_of ''data''"] n by simp
  from a b c d show ?thesis by blast
qed

lemma snd_get_as_bytes: "snd (get_as_bytes self key) = self"
  by (simp add: get_as_bytes_def split: option.splits)

lemma snd_get_as_string: "snd (get_as_string self key) = self"
  using snd_get_as_bytes[of self key]
  by (cases "get_as_bytes self key") (simp add: get_as_string_def split: sum.splits)

lemma snd_get_as_json: "snd (get_as_json literal_eval self key) = self"
  using snd_get_as_bytes[of self key]
  by (cases "get_as_bytes self key") (simp add: get_as_json_def split: sum.splits)

lemma snd_get_as_image: "snd (get_as_image image_open self key) = self"
  using snd_get_as_bytes[of self key]
  by (cases "get_as_bytes self key") (simp add: get_as_image_def split: sum.splits)

lemma snd_get_as_numpy: "snd (get_as_numpy from_nd_list self key) = self"
  using snd_get_as_bytes[of self key]
  by (cases "get_as_bytes self key") (simp add: get_as_numpy_def split: sum.splits)

lemma snd_get_data: "snd (get_data ext literal_eval image_open from_nd_list self key) = self"
  by (simp add: get_data_def get_property_def tagged_def snd_get_as_bytes snd_get_as_string
        snd_get_as_json snd_get_as_image snd_get_as_numpy split: sum.splits)

text \<open>
  Claim C9. None of \<open>get_data\<close>, \<open>get_as_bytes\<close>, \<open>get_as_string\<close>,
  \<open>get_as_json\<close>, \<open>get_as_image\<close> and \<open>get_as_numpy\<close> changes the request: the
  object each returns is the object it was given, with its properties, content and function
  name. Hence a call made after other calls returns what it returns on the original
  request, in any order. The external parsers are functions of their argument.
\<close>

theorem accessors_do_not_mutate:
  "snd (get_as_bytes self key) = self \<and>
   snd (get_as_string self key) = self \<and>
   snd (get_as_json literal_eval self key) = self \<and>
   snd (get_as_image image_open self key) = self \<and>
   snd (get_as_numpy from_nd_list self key) = self \<and>
   snd (get_data ext literal_eval image_open from_nd_list self key) = self \<and>
   get_data ext literal_eval image_open from_nd_list
     (snd (get_as_string (snd (get_data ext literal_eval image_open from_nd_list self key')) key''))
     key =
   get_data ext literal_eval image_open from_nd_list self key"
  by (simp only: snd_get_as_bytes snd_get_as_string snd_get_as_json snd_get_as_image
        snd_get_as_numpy snd_get_data simp_thms)


lemma first_match_found:
  "(\<forall>p \<in> set pre. \<exists>s. fst p = Some s \<and> str_lower ext s \<noteq> str_lower ext key) \<Longrightarrow>
   str_lower ext k = str_lower ext key \<Longrightarrow>
   first_match ext (pre @ (Some k, v) # post) key = Inr v"
  by (induction pre) auto

lemma first_match_absent:
  "(\<forall>p \<in> set items. \<exists>s. fst p = Some s \<and> str_lower ext s \<noteq> str_lower ext key) \<Longrightarrow>
   first_match ext items key = Inr None"
  by (induction items) auto

lemma get_data_route:
  "first_match ext (properties self) (str_of ''content-type'') = Inr ct \<Longrightarrow>
   get_data ext literal_eval image_open from_nd_list self key =
     spec_dispatch literal_eval image_open from_nd_list (spec_route ct) self key"
  by (cases ct) (simp_all add: get_data_def get_property_def spec_route_def spec_dispatch_def)

text \<open>
  Claim C4, as stated, fails: the value of the content type is not taken up to letter case.
  With the property \<open>content-type\<close> = \<open>TEXT/plain\<close>, whose lower-cased value starts
  with \<open>text/\<close>, \<open>get_data\<close> returns the raw bytes, not the text that the text
  extraction returns on the same request.
\<close>

theorem get_data_value_case_sensitive_counterexample:
  "get_data (\<lambda>s. s) (\<lambda>t. Inr t) (\<lambda>b. Inr b) (\<lambda>b. Inr b)
     \<lparr>function_name = None,
      properties = [(Some (str_of ''content-type''), Some (str_of ''TEXT/plain''))],
      content = [(None, [65])]\<rparr> None
   = (Inr (Bytes (Some [65])),
      \<lparr>function_name = None,
       properties = [(Some (str_of ''content-type''), Some (str_of ''TEXT/plain''))],
       content = [(None, [65])]\<rparr>) \<and>
   tagged Text (get_as_string
     \<lparr>function_name = None,
      properties = [(Some (str_of ''content-type''), Some (str_of ''TEXT/plain''))],
      content = [(None, [65])]\<rparr> None)
   = (Inr (Text [65]),
      \<lparr>function_name = None,
       properties = [(Some (str_of ''content-type''), Some (str_of ''TEXT/plain''))],
       content = [(None, [65])]\<rparr>) \<and>
   startswith (str_lower (\<lambda>s. s) (str_of ''TEXT/plain'')) (str_of ''text/'')"
proof -
  let ?s = "\<lparr>function_name = None,
      properties = [(Some (str_of ''content-type''), Some (str_of ''TEXT/plain''))],
      content = [(None, [65])]\<rparr>"
  have b: "get_as_bytes ?s None = (Inr (Some [65]), ?s)"
    by (simp add: get_as_bytes_def PairList_is_empty_def PairList_get_def PairList_value_at_def)
  have d: "decode_utf8 [65] = Inr [65]" by (simp add: decode_utf8_def)
  have 1: "get_data (\<lambda>s. s) (\<lambda>t. Inr t) (\<lambda>b. Inr b) (\<lambda>b. Inr b) ?s None
      = (Inr (Bytes (Some [65])), ?s)"
    by (simp add: get_data_def get_property_def str_lower_def str_of_def startswith_def
          tagged_def get_as_bytes_def PairList_is_empty_def PairList_get_def
          PairList_value_at_def)
  have 2: "tagged Text (get_as_string ?s None) = (Inr (Text [65]), ?s)"
    by (simp add: tagged_def get_as_string_def b bytes_decode_def d)
  have 3: "startswith (str_lower (\<lambda>s. s) (str_of ''TEXT/plain'')) (str_of ''text/'')"
    by (simp add: startswith_def str_lower_def str_of_def)
  from 1 2 3 show ?thesis by blast
qed

text \<open>
  Claim C4, amended. On a request whose property keys are strings, \<open>get_data\<close>
  dispatches on the value of the content-type property alone. The property is the first
  one, in insertion order, whose key equals \<open>content-type\<close> up to letter case; its
  value is compared exactly, letter case included: \<open>tensor/ndlist\<close> goes to the numeric
  arrays, \<open>application/json\<close> to the structured record, a value starting with
  \<open>text/\<close> to the text, one starting with \<open>image/\<close> to the image, and any other
  value, a \<open>None\<close> value or no such property to the raw bytes.
\<close>

theorem get_data_dispatch:
  "(properties self = pre @ (Some k, v) # post \<and>
      str_lower ext k = str_lower ext (str_of ''content-type'') \<and>
      (\<forall>p \<in> set pre. \<exists>s. fst p = Some s \<and>
          str_lower ext s \<noteq> str_lower ext (str_of ''content-type''))
    \<longrightarrow> get_data ext literal_eval image_open from_nd_list self key =
          spec_dispatch literal_eval image_open from_nd_list (spec_route v) self key) \<and>
   ((\<forall>p \<in> set (properties self). \<exists>s. fst p = Some s \<and>
          str_lower ext s \<noteq> str_lower ext (str_of ''content-type''))
    \<longrightarrow> get_data ext literal_eval image_open from_nd_list self key =
          tagged Bytes (get_as_bytes self key))"
proof (intro conjI impI)
  assume a: "properties self = pre @ (Some k, v) # post \<and>
      str_lower ext k = str_lower ext (str_of ''content-type'') \<and>
      (\<forall>p \<in> set pre. \<exists>s. fst p = Some s \<and>
          str_lower ext s \<noteq> str_lower ext (str_of ''content-type''))"
  then have "first_match ext (properties self) (str_of ''content-type'') = Inr v"
    using first_match_found[of pre ext "str_of ''content-type''" k v post] by simp
  then show "get_data ext literal_eval image_open from_nd_list self key =
          spec_dispatch literal_eval image_open from_nd_list (spec_route v) self key"
    by (rule get_data_route)
next
  assume "\<forall>p \<in> set (properties self). \<exists>s. fst p = Some s \<and>
          str_lower ext s \<noteq> str_lower ext (str_of ''content-type'')"
  then have "first_match ext (properties self) (str_of ''content-type'') = Inr None"
    by (rule first_match_absent)
  from get_data_route[OF this]
  show "get_data ext literal_eval image_open from_nd_list self key =
          tagged Bytes (get_as_bytes self key)"
    by (simp add: spec_route_def spec_dispatch_def)
qed

theorem get_data_dispatch_witness:
  "get_data (\<lambda>s. s) (\<lambda>t. Inr t) (\<lambda>b. Inr b) (\<lambda>b. Inr b)
     \<lparr>function_name = None,
      properties = [(Some (str_of ''Accept''), Some (str_of ''x'')),
                    (Some (str_of ''Content-Type''), Some (str_of ''application/json''))],
      content = [(None, [49])]\<rparr> None
   = (Inr (Json [49]),
      \<lparr>function_name = None,
       properties = [(Some (str_of ''Accept''), Some (str_of ''x'')),
                     (Some (str_of ''Content-Type''), Some (str_of ''application/json''))],
       content = [(None, [49])]\<rparr>) \<and>
   get_data (\<lambda>s. s) (\<lambda>t. Inr t) (\<lambda>b. Inr b) (\<lambda>b. Inr b)
     \<lparr>function_name = None,
      properties = [(Some (str_of ''Accept''), Some (str_of ''x''))],
      content = [(None, [49])]\<rparr> None
   = (Inr (Bytes (Some [49])),
      \<lparr>function_name = None,
       properties = [(Some (str_of ''Accept''), Some (str_of ''x''))],
       content = [(None, [49])]\<rparr>)"
proof -
  let ?ext = "\<lambda>s :: pystr. s"
  let ?a = "(Some (str_of ''Accept''), Some (str_of ''x''))"
  let ?s1 = "\<lparr>function_name = None,
      properties = [?a, (Some (str_of ''Content-Type''), Some (str_of ''application/json''))],
      content = [(None, [49])]\<rparr>"
  let ?s2 = "\<lparr>function_name = None, properties = [?a], content = [(None, [49])]\<rparr>"
  have l1: "str_lower ?ext (str_of ''Content-Type'') = str_lower ?ext (str_of ''content-type'')"
    by (simp add: str_lower_def str_of_def)
  have l2: "str_lower ?ext (str_of ''Accept'') \<noteq> str_lower ?ext (str_of ''content-type'')"
    by (simp add: str_lower_def str_of_def)
  have h1: "properties ?s1 = [?a] @ (Some (str_of ''Content-Type''), Some (str_of ''application/json'')) # [] \<and>
      str_lower ?ext (str_of ''Content-Type'') = str_lower ?ext (str_of ''content-type'') \<and>
      (\<forall>p \<in> set [?a]. \<exists>s. fst p = Some s \<and>
          str_lower ?ext s \<noteq> str_lower ?ext (str_of ''content-type''))"
    using l1 l2 by simp
  have h2: "\<forall>p \<in> set (properties ?s2). \<exists>s. fst p = Some s \<and>
          str_lower ?ext s \<noteq> str_lower ?ext (str_of ''content-type'')"
    using l2 by simp
  have r: "spec_route (Some (str_of ''application/json'')) = StructuredRecord"
    by (simp add: spec_route_def str_of_def)
  have d: "decode_utf8 [49] = Inr [49]" by (simp add: decode_utf8_def)
  have b1: "get_as_bytes ?s1 None = (Inr (Some [49]), ?s1)"
    by (simp add: get_as_bytes_def PairList_is_empty_def PairList_get_def PairList_value_at_def)
  have b2: "get_as_bytes ?s2 None = (Inr (Some [49]), ?s2)"
    by (simp add: get_as_bytes_def PairList_is_empty_def PairList_get_def PairList_value_at_def)
  from get_data_dispatch[of ?s1 "[?a]" "str_of ''Content-Type''" "Some (str_of ''application/json'')"
      "[]" ?ext "\<lambda>t. Inr t" "\<lambda>b. Inr b" "\<lambda>b. Inr b" None] h1
  have "get_data ?ext (\<lambda>t. Inr t) (\<lambda>b. Inr b) (\<lambda>b. Inr b) ?s1 None =
          spec_dispatch (\<lambda>t. Inr t) (\<lambda>b. Inr b) (\<lambda>b. Inr b)
            (spec_route (Some (str_of ''application/json''))) ?s1 None"
    by blast
  then have g1: "get_data ?ext (\<lambda>t. Inr t) (\<lambda>b. Inr b) (\<lambda>b. Inr b) ?s1 None = (Inr (Json [49]), ?s1)"
    by (simp add: r spec_dispatch_def tagged_def get_as_json_def b1 bytes_decode_def d)
  from get_data_dispatch[of ?s2 "[]" "[]" None "[]" ?ext "\<lambda>t. Inr t" "\<lambda>b. Inr b" "\<lambda>b. Inr b" None] h2
  have "get_data ?ext (\<lambda>t. Inr t) (\<lambda>b. Inr b) (\<lambda>b. Inr b) ?s2 None =
          tagged Bytes (get_as_bytes ?s2 None)"
    by blast
  then have g2: "get_data ?ext (\<lambda>t. Inr t) (\<lambda>b. Inr b) (\<lambda>b. Inr b) ?s2 None = (Inr (Bytes (Some [49])), ?s2)"
    by (simp add: tagged_def b2)
  from g1 g2 show ?thesis by blast
qed

section \<open>Decoding what the wire format encodes\<close>

lemma uint_byte: "uint (word_of_int k :: byte) = k mod 256"
  by (simp add: uint_word_of_int)

lemma be_nat_int16_be: "int (be_nat (int16_be i)) = i mod 65536"
proof -
  have "i mod 65536 = 256 * (i div 256 mod 256) + i mod 256"
    using zmod_zmult2_eq[of 256 i 256] by simp
  then show ?thesis
    by (simp add: be_nat_def int16_be_def uint_byte)
qed

lemma unpack_h_int16_be:
  assumes "- 32768 \<le> i" "i < 32768"
  shows "unpack_h (int16_be i) = Inr i"
proof -
  have l: "length (int16_be i) = 2" by (simp add: int16_be_def)
  have m: "i mod 65536 = (if i < 0 then i + 65536 else i)"
  proof (cases "i < 0")
    case True
    then have "(i + 65536) mod 65536 = i + 65536"
      using assms by (intro mod_pos_pos_trivial) auto
    with True show ?thesis by simp
  next
    case False
    then show ?thesis using assms by (simp add: mod_pos_pos_trivial)
  qed
  have "be_nat (int16_be i) < 2 ^ 15 \<longleftrightarrow> int (be_nat (int16_be i)) < 32768" by simp
  then show ?thesis
    unfolding unpack_h_def using l m assms be_nat_int16_be[of i] by auto
qed

lemma be_nat_int32_be: "int (be_nat (int32_be i)) = i mod 4294967296"
proof -
  have a: "i mod 4294967296 = 256 * (i div 256 mod 16777216) + i mod 256"
    using zmod_zmult2_eq[of 16777216 i 256] by simp
  have d1: "i div 256 div 256 = i div 65536"
    using zdiv_zmult2_eq[of 256 i 256] by simp
  have d2: "i div 65536 div 256 = i div 16777216"
    using zdiv_zmult2_eq[of 256 i 65536] by simp
  have b: "(i div 256) mod 16777216 = 256 * (i div 65536 mod 65536) + (i div 256) mod 256"
    using zmod_zmult2_eq[of 65536 "i div 256" 256] unfolding d1 by simp
  have c: "(i div 65536) mod 65536 = 256 * (i div 16777216 mod 256) + (i div 65536) mod 256"
    using zmod_zmult2_eq[of 256 "i div 65536" 256] unfolding d2 by simp
  have e: "i mod 4294967296 =
      16777216 * (i div 16777216 mod 256) + 65536 * (i div 65536 mod 256) +
      256 * (i div 256 mod 256) + i mod 256"
    unfolding a b c by (simp add: algebra_simps)
  have "int (be_nat (int32_be i)) =
      16777216 * (i div 16777216 mod 256) + 65536 * (i div 65536 mod 256) +
      256 * (i div 256 mod 256) + i mod 256"
    by (simp add: be_nat_def int32_be_def uint_word_of_int)
  with e show ?thesis by (simp only:)
qed

lemma unpack_i_int32_be:
  assumes "- 2147483648 \<le> i" "i < 2147483648"
  shows "unpack_i (int32_be i) = Inr i"
proof -
  have l: "length (int32_be i) = 4" by (simp add: int32_be_def)
  have m: "i mod 4294967296 = (if i < 0 then i + 4294967296 else i)"
  proof (cases "i < 0")
    case True
    then have "(i + 4294967296) mod 4294967296 = i + 4294967296"
      using assms by (intro mod_pos_pos_trivial) auto
    with True show ?thesis by simp
  next
    case False
    then show ?thesis using assms by (simp add: mod_pos_pos_trivial)
  qed
  have "be_nat (int32_be i) < 2 ^ 31 \<longleftrightarrow> int (be_nat (int32_be i)) < 2147483648" by simp
  then show ?thesis
    unfolding unpack_i_def using l m assms be_nat_int32_be[of i] by auto
qed

lemma retrieve_short_delivers:
  assumes "delivers c (int16_be i @ rest)" "- 32768 \<le> i" "i < 32768"
  shows "\<exists>c'. retrieve_short c = (Inr i, c') \<and> delivers c' rest"
proof -
  have "2 = int (length (int16_be i))" by (simp add: int16_be_def)
  from retrieve_buffer_delivers[OF assms(1) this] obtain c' where
    "retrieve_buffer c 2 = (Inr (int16_be i), c')" "delivers c' rest" by blast
  then show ?thesis
    using unpack_h_int16_be[OF assms(2,3)] by (simp add: retrieve_short_def)
qed

lemma retrieve_int_delivers:
  assumes "delivers c (int32_be i @ rest)" "- 2147483648 \<le> i" "i < 2147483648"
  shows "\<exists>c'. retrieve_int c = (Inr i, c') \<and> delivers c' rest"
proof -
  have "4 = int (length (int32_be i))" by (simp add: int32_be_def)
  from retrieve_buffer_delivers[OF assms(1) this] obtain c' where
    "retrieve_buffer c 4 = (Inr (int32_be i), c')" "delivers c' rest" by blast
  then show ?thesis
    using unpack_i_int32_be[OF assms(2,3)] by (simp add: retrieve_int_def)
qed

lemma retrieve_utf8_delivers:
  assumes "delivers c (enc_str w @ rest)" "wf_str w"
  shows "\<exists>c'. retrieve_utf8 c =
            (case w of Null len \<Rightarrow> Inr None | Str data \<Rightarrow> map_sum id Some (decode_utf8 data), c')
          \<and> delivers c' rest"
proof (cases w)
  case (Null len)
  with assms have d: "delivers c (int16_be len @ rest)" and r: "- 32768 \<le> len" "len < 32768" "len < 0"
    by auto
  from retrieve_short_delivers[OF d r(1,2)] obtain c' where
    "retrieve_short c = (Inr len, c')" "delivers c' rest" by blast
  with r(3) Null show ?thesis by (auto simp: retrieve_utf8_def)
next
  case (Str data)
  with assms have d: "delivers c (int16_be (int (length data)) @ data @ rest)"
    and r: "- 32768 \<le> int (length data)" "int (length data) < 32768"
    by auto
  from retrieve_short_delivers[OF d r] obtain c1 where
    s: "retrieve_short c = (Inr (int (length data)), c1)" and d1: "delivers c1 (data @ rest)" by blast
  from retrieve_buffer_delivers[OF d1 refl] obtain c2 where
    "retrieve_buffer c1 (int (length data)) = (Inr data, c2)" "delivers c2 rest" by blast
  with s Str show ?thesis by (auto simp: retrieve_utf8_def)
qed

lemma retrieve_utf8_text:
  assumes "delivers c (enc_str w @ rest)" "wf_str w" "is_text w"
  shows "\<exists>c'. retrieve_utf8 c = (Inr (text_of w), c') \<and> delivers c' rest"
  using retrieve_utf8_delivers[OF assms(1,2)] assms(3)
  by (cases w) (auto simp: decode_utf8_def)

lemma read_properties_delivers:
  "list_all wf_prop ps \<Longrightarrow> delivers c (concat (map enc_prop ps) @ rest) \<Longrightarrow>
   \<exists>c'. read_properties (length ps) self c =
          (Inr (), self\<lparr>properties := assign_all (properties self) (decoded_props ps)\<rparr>, c')
        \<and> delivers c' rest"
proof (induction ps arbitrary: self c)
  case Nil
  then show ?case by (simp add: assign_all_def decoded_props_def)
next
  case (Cons p ps)
  obtain k v where p: "p = (k, v)" by (cases p)
  from Cons.prems(1) have "wf_prop p" and wfs: "list_all wf_prop ps" by simp_all
  with p have wf: "wf_str k" "is_text k" "wf_str v" "is_text v"
    by simp_all
  from Cons.prems(2) p
  have d: "delivers c (enc_str k @ enc_str v @ concat (map enc_prop ps) @ rest)"
    by simp
  from retrieve_utf8_text[OF d wf(1,2)] obtain c1 where
    k: "retrieve_utf8 c = (Inr (text_of k), c1)"
    and d1: "delivers c1 (enc_str v @ concat (map enc_prop ps) @ rest)" by blast
  from retrieve_utf8_text[OF d1 wf(3,4)] obtain c2 where
    v: "retrieve_utf8 c1 = (Inr (text_of v), c2)"
    and d2: "delivers c2 (concat (map enc_prop ps) @ rest)" by blast
  from Cons.IH[OF wfs d2, of "self\<lparr>properties := dict_set (properties self) (text_of k) (text_of v)\<rparr>"]
  obtain c' where
    "read_properties (length ps) (self\<lparr>properties := dict_set (properties self) (text_of k) (text_of v)\<rparr>) c2 =
       (Inr (), self\<lparr>properties := assign_all (dict_set (properties self) (text_of k) (text_of v)) (decoded_props ps)\<rparr>, c')"
    and "delivers c' rest" by auto
  with k v p show ?case by (simp add: assign_all_def decoded_props_def)
qed

lemma read_content_delivers:
  "list_all wf_item its \<Longrightarrow> delivers c (concat (map enc_item its) @ rest) \<Longrightarrow>
   \<exists>c'. read_content (length its) self c =
          (Inr (), self\<lparr>content := content self @ decoded_items its\<rparr>, c')
        \<and> delivers c' rest"
proof (induction its arbitrary: self c)
  case Nil
  then show ?case by (simp add: decoded_items_def)
next
  case (Cons it its)
  obtain k len data where it: "it = (k, len, data)" by (cases it)
  from Cons.prems it have wf: "wf_str k" "is_text k" "- 2147483648 \<le> len" "len < 2147483648"
    "length data = nat len" "list_all wf_item its"
    by auto
  from Cons.prems(2) it
  have d: "delivers c (enc_str k @ int32_be len @ data @ concat (map enc_item its) @ rest)"
    by simp
  from retrieve_utf8_text[OF d wf(1,2)] obtain c1 where
    k: "retrieve_utf8 c = (Inr (text_of k), c1)"
    and d1: "delivers c1 (int32_be len @ data @ concat (map enc_item its) @ rest)" by blast
  from retrieve_int_delivers[OF d1 wf(3,4)] obtain c2 where
    l: "retrieve_int c1 = (Inr len, c2)"
    and d2: "delivers c2 (data @ concat (map enc_item its) @ rest)" by blast
  have "\<exists>c3. retrieve_buffer c2 len = (Inr data, c3) \<and>
          delivers c3 (concat (map enc_item its) @ rest)"
  proof (cases "len \<le> 0")
    case True
    with wf(5) d2 show ?thesis by (simp add: retrieve_buffer_def)
  next
    case False
    with wf(5) have "len = int (length data)" by simp
    from retrieve_buffer_delivers[OF d2 this] show ?thesis .
  qed
  then obtain c3 where
    b: "retrieve_buffer c2 len = (Inr data, c3)"
    and d3: "delivers c3 (concat (map enc_item its) @ rest)" by blast
  from Cons.IH[OF wf(6) d3, of "self\<lparr>content := PairList_add (content self) (text_of k) data\<rparr>"]
  obtain c' where
    "read_content (length its) (self\<lparr>content := PairList_add (content self) (text_of k) data\<rparr>) c3 =
       (Inr (), self\<lparr>content := PairList_add (content self) (text_of k) data @ decoded_items its\<rparr>, c')"
    and "delivers c' rest" by auto
  with k l b it show ?case by (simp add: decoded_items_def PairList_add_def)
qed

lemma map_of_dict_set: "map_of (dict_set d k v) = (map_of d)(k \<mapsto> v)"
  by (induction d) auto

lemma keys_dict_set: "fst ` set (dict_set d k v) = insert k (fst ` set d)"
proof (induction d)
  case Nil
  show ?case by simp
next
  case (Cons a d)
  obtain k' v' where a: "a = (k', v')" by (cases a)
  show ?case
  proof (cases "k' = k")
    case True
    then show ?thesis by (simp add: a)
  next
    case False
    then show ?thesis using Cons.IH by (simp add: a insert_commute)
  qed
qed

lemma distinct_dict_set: "distinct (map fst d) \<Longrightarrow> distinct (map fst (dict_set d k v))"
proof (induction d)
  case Nil
  show ?case by simp
next
  case (Cons a d)
  obtain k' v' where a: "a = (k', v')" by (cases a)
  show ?case
  proof (cases "k' = k")
    case True
    then show ?thesis using Cons.prems by (simp add: a)
  next
    case False
    then show ?thesis using Cons keys_dict_set[of d k v] by (simp add: a)
  qed
qed

lemma assign_all_Cons:
  "assign_all d ((k, v) # kvs) = assign_all (dict_set d k v) kvs"
  by (simp add: assign_all_def)

lemma map_of_assign_all: "map_of (assign_all d kvs) = map_of d ++ map_of (rev kvs)"
proof (induction kvs arbitrary: d)
  case Nil
  then show ?case by (simp add: assign_all_def)
next
  case (Cons kv kvs)
  obtain k v where kv: "kv = (k, v)" by (cases kv)
  have "map_of (assign_all d (kv # kvs)) = (map_of d)(k \<mapsto> v) ++ map_of (rev kvs)"
    unfolding kv assign_all_Cons Cons.IH map_of_dict_set ..
  also have "\<dots> = map_of d ++ map_of (rev (kv # kvs))"
    by (rule ext) (simp add: kv map_add_def split: option.splits)
  finally show ?case .
qed

lemma read_delivers:
  assumes "wf_frame f" "delivers c (encode_frame f @ rest)"
  shows "\<exists>c'. read self c =
            (Inr (),
             self\<lparr>properties := assign_all (properties self) (decoded_props (props f)),
                  content := content self @ decoded_items (pairs f),
                  function_name :=
                    dict_get (assign_all (properties self) (decoded_props (props f)))
                      (Some (str_of ''handler''))\<rparr>,
             c')
          \<and> delivers c' rest"
proof -
  from assms(1) have pc: "- 32768 \<le> prop_count f" "prop_count f < 32768"
    and pl: "nat (prop_count f) = length (props f)" and pw: "list_all wf_prop (props f)"
    and cc: "- 32768 \<le> content_count f" "content_count f < 32768"
    and cl: "nat (content_count f) = length (pairs f)" and cw: "list_all wf_item (pairs f)"
    by (simp_all add: wf_frame_def)
  from assms(2) have d0: "delivers c (int16_be (prop_count f) @ concat (map enc_prop (props f)) @
     int16_be (content_count f) @ concat (map enc_item (pairs f)) @ rest)"
    by (simp add: encode_frame_def)
  from retrieve_short_delivers[OF d0 pc] obtain c1 where
    r1: "retrieve_short c = (Inr (prop_count f), c1)"
    and d1: "delivers c1 (concat (map enc_prop (props f)) @
     int16_be (content_count f) @ concat (map enc_item (pairs f)) @ rest)" by blast
  define s1 where "s1 = self\<lparr>properties := assign_all (properties self) (decoded_props (props f))\<rparr>"
  from read_properties_delivers[OF pw d1, of self] obtain c2 where
    r2: "read_properties (length (props f)) self c1 = (Inr (), s1, c2)"
    and d2: "delivers c2 (int16_be (content_count f) @ concat (map enc_item (pairs f)) @ rest)"
    unfolding s1_def by blast
  from retrieve_short_delivers[OF d2 cc] obtain c3 where
    r3: "retrieve_short c2 = (Inr (content_count f), c3)"
    and d3: "delivers c3 (concat (map enc_item (pairs f)) @ rest)" by blast
  from read_content_delivers[OF cw d3, of s1] obtain c4 where
    r4: "read_content (length (pairs f)) s1 c3 =
          (Inr (), s1\<lparr>content := content s1 @ decoded_items (pairs f)\<rparr>, c4)"
    and d4: "delivers c4 rest" by blast
  have "read self c =
     (Inr (), (s1\<lparr>content := content s1 @ decoded_items (pairs f)\<rparr>)
        \<lparr>function_name := dict_get (properties (s1\<lparr>content := content s1 @ decoded_items (pairs f)\<rparr>))
            (Some (str_of ''handler''))\<rparr>, c4)"
    by (simp add: read_def r1 pl r2 r3 cl r4)
  with d4 show ?thesis by (auto simp: s1_def)
qed

section \<open>Claims about \<open>Input.read\<close>\<close>

text \<open>
  Claim C1. On a connection that delivers a well-formed frame, in whatever packets,
  \<open>read\<close> succeeds. It reads the property count and that many (key, value) strings,
  assigning each to \<open>properties\<close> in wire order, so that of two values for one key the
  later one is the one stored; it then reads the content count and that many (nullable
  key, 32-bit length, bytes) triples, appending each (key, bytes) pair to \<open>content\<close> in
  wire order. It consumes the frame and nothing after it.
\<close>

theorem read_decodes_frame:
  "wf_frame f \<and> delivers c (encode_frame f @ rest) \<longrightarrow>
     fst (read self c) = Inr () \<and>
     properties (fst (snd (read self c))) =
       assign_all (properties self) (decoded_props (props f)) \<and>
     map_of (properties (fst (snd (read self c)))) =
       map_of (properties self) ++ map_of (rev (decoded_props (props f))) \<and>
     content (fst (snd (read self c))) = content self @ decoded_items (pairs f) \<and>
     delivers (snd (snd (read self c))) rest"
proof
  assume a: "wf_frame f \<and> delivers c (encode_frame f @ rest)"
  then obtain c' where r: "read self c =
            (Inr (),
             self\<lparr>properties := assign_all (properties self) (decoded_props (props f)),
                  content := content self @ decoded_items (pairs f),
                  function_name :=
                    dict_get (assign_all (properties self) (decoded_props (props f)))
                      (Some (str_of ''handler''))\<rparr>,
             c')" and d: "delivers c' rest"
    using read_delivers[of f c rest self] by blast
  show "fst (read self c) = Inr () \<and>
     properties (fst (snd (read self c))) =
       assign_all (properties self) (decoded_props (props f)) \<and>
     map_of (properties (fst (snd (read self c)))) =
       map_of (properties self) ++ map_of (rev (decoded_props (props f))) \<and>
     content (fst (snd (read self c))) = content self @ decoded_items (pairs f) \<and>
     delivers (snd (snd (read self c))) rest"
    unfolding r using d by (simp add: map_of_assign_all)
qed

lemma example_frame_wf:
  "wf_frame \<lparr>prop_count = 2,
      props = [(Str [97], Str [49]), (Str [97], Str [50])],
      content_count = 1,
      pairs = [(Null (- 1), 3, [1, 2, 3])]\<rparr>"
  by (simp add: wf_frame_def)

lemma example_frame_bytes:
  "encode_frame \<lparr>prop_count = 2,
      props = [(Str [97], Str [49]), (Str [97], Str [50])],
      content_count = 1,
      pairs = [(Null (- 1), 3, [1, 2, 3])]\<rparr> =
   [0, 2, 0, 1, 97, 0, 1, 49, 0, 1, 97, 0, 1, 50, 0, 1, 255, 255, 0, 0, 0, 3, 1, 2, 3]"
  by (simp add: encode_frame_def int16_be_def int32_be_def)

theorem read_decodes_frame_witness:
  "fst (read Input_init
      \<lparr>pending = [[0, 2, 0], [1, 97, 0, 1, 49, 0, 1, 97, 0, 1, 50, 0, 1, 255, 255, 0, 0],
                  [0, 3, 1, 2, 3, 9]], reads = 0\<rparr>) = Inr () \<and>
   properties (fst (snd (read Input_init
      \<lparr>pending = [[0, 2, 0], [1, 97, 0, 1, 49, 0, 1, 97, 0, 1, 50, 0, 1, 255, 255, 0, 0],
                  [0, 3, 1, 2, 3, 9]], reads = 0\<rparr>))) = [(Some (str_of ''a''), Some (str_of ''2''))] \<and>
   content (fst (snd (read Input_init
      \<lparr>pending = [[0, 2, 0], [1, 97, 0, 1, 49, 0, 1, 97, 0, 1, 50, 0, 1, 255, 255, 0, 0],
                  [0, 3, 1, 2, 3, 9]], reads = 0\<rparr>))) = [(None, [1, 2, 3])] \<and>
   concat (pending (snd (snd (read Input_init
      \<lparr>pending = [[0, 2, 0], [1, 97, 0, 1, 49, 0, 1, 97, 0, 1, 50, 0, 1, 255, 255, 0, 0],
                  [0, 3, 1, 2, 3, 9]], reads = 0\<rparr>)))) = [9]"
proof -
  let ?f = "\<lparr>prop_count = 2,
      props = [(Str [97], Str [49]), (Str [97], Str [50])],
      content_count = 1,
      pairs = [(Null (- 1), 3, [1, 2, 3])]\<rparr>"
  let ?c = "\<lparr>pending = [[0, 2, 0], [1, 97, 0, 1, 49, 0, 1, 97, 0, 1, 50, 0, 1, 255, 255, 0, 0],
                  [0, 3, 1, 2, 3, 9]], reads = 0\<rparr>"
  have d: "delivers ?c (encode_frame ?f @ [9])"
    unfolding example_frame_bytes by (simp add: delivers_def)
  have p: "assign_all (properties Input_init) (decoded_props (props ?f)) =
      [(Some (str_of ''a''), Some (str_of ''2''))]"
    by (simp add: assign_all_def decoded_props_def Input_init_def str_of_def)
  have q: "content Input_init @ decoded_items (pairs ?f) = [(None, [1, 2, 3])]"
    by (simp add: decoded_items_def Input_init_def)
  from read_decodes_frame[of ?f ?c "[9]" Input_init] example_frame_wf d
  show ?thesis unfolding p q by (simp add: delivers_def)
qed

lemma retrieve_buffer_loop_error:
  "retrieve_buffer_loop c len data = (Inl e, c') \<Longrightarrow> e = Disconnected"
proof (induction c len data rule: retrieve_buffer_loop.induct)
  case (1 c len data)
  show ?case
  proof (cases "len > 0")
    case False
    with "1.prems" show ?thesis by simp
  next
    case True
    obtain pkt c1 where r: "recv c len = (pkt, c1)" by (cases "recv c len")
    show ?thesis
    proof (cases "length pkt = 0")
      case True
      with "1.prems" \<open>len > 0\<close> r show ?thesis by simp
    next
      case False
      with "1.prems" \<open>len > 0\<close> r
      have "retrieve_buffer_loop c1 (len - int (length pkt)) (data @ pkt) = (Inl e, c')"
        by simp
      from "1.IH"[OF \<open>len > 0\<close> r[symmetric] False this] show ?thesis .
    qed
  qed
qed

lemma retrieve_short_error: "retrieve_short c = (Inl e, c') \<Longrightarrow> e = Disconnected"
proof -
  assume a: "retrieve_short c = (Inl e, c')"
  obtain r c1 where b: "retrieve_buffer c 2 = (r, c1)" by (cases "retrieve_buffer c 2")
  show ?thesis
  proof (cases r)
    case (Inl e')
    with a b have "e' = e" by (simp add: retrieve_short_def)
    with b Inl retrieve_buffer_loop_error[of c 2 "[]" e c1] show ?thesis
      by (simp add: retrieve_buffer_def)
  next
    case (Inr data)
    with b retrieve_buffer_loop_length[of c 2 "[]" data c1] have "length data = 2"
      by (simp add: retrieve_buffer_def)
    with a b Inr show ?thesis by (simp add: retrieve_short_def unpack_h_def)
  qed
qed

lemma retrieve_int_error: "retrieve_int c = (Inl e, c') \<Longrightarrow> e = Disconnected"
proof -
  assume a: "retrieve_int c = (Inl e, c')"
  obtain r c1 where b: "retrieve_buffer c 4 = (r, c1)" by (cases "retrieve_buffer c 4")
  show ?thesis
  proof (cases r)
    case (Inl e')
    with a b have "e' = e" by (simp add: retrieve_int_def)
    with b Inl retrieve_buffer_loop_error[of c 4 "[]" e c1] show ?thesis
      by (simp add: retrieve_buffer_def)
  next
    case (Inr data)
    with b retrieve_buffer_loop_length[of c 4 "[]" data c1] have "length data = 4"
      by (simp add: retrieve_buffer_def)
    with a b Inr show ?thesis by (simp add: retrieve_int_def unpack_i_def)
  qed
qed

lemma retrieve_utf8_error:
  "retrieve_utf8 c = (Inl e, c') \<Longrightarrow> e = Disconnected \<or> e = DecodeError"
proof -
  assume a: "retrieve_utf8 c = (Inl e, c')"
  obtain r c1 where b: "retrieve_short c = (r, c1)" by (cases "retrieve_short c")
  show ?thesis
  proof (cases r)
    case (Inl e')
    with a b have "e' = e" by (simp add: retrieve_utf8_def)
    with b Inl retrieve_short_error[of c e c1] show ?thesis by simp
  next
    case (Inr len)
    show ?thesis
    proof (cases "len < 0")
      case True
      with a b Inr show ?thesis by (simp add: retrieve_utf8_def)
    next
      case False
      obtain r2 c2 where d: "retrieve_buffer c1 len = (r2, c2)"
        by (cases "retrieve_buffer c1 len")
      show ?thesis
      proof (cases r2)
        case (Inl e')
        with a b Inr False d have "e' = e" by (simp add: retrieve_utf8_def)
        with d Inl retrieve_buffer_loop_error[of c1 len "[]" e c2] show ?thesis
          by (simp add: retrieve_buffer_def)
      next
        case r2: (Inr data)
        with a b Inr False d have "map_sum id Some (decode_utf8 data) = Inl e"
          by (simp add: retrieve_utf8_def)
        then show ?thesis by (auto simp: decode_utf8_def split: option.splits)
      qed
    qed
  qed
qed

lemma keeps_refl: "keeps s s"
  by (simp add: keeps_def)

lemma keeps_trans: "keeps a b \<Longrightarrow> keeps b c \<Longrightarrow> keeps a c"
  unfolding keeps_def by (elim conjE exE) (auto)

lemma keeps_property:
  "keeps self (self\<lparr>properties := dict_set (properties self) k v\<rparr>)"
  by (force simp: keeps_def keys_dict_set distinct_dict_set)

lemma keeps_content:
  "keeps self (self\<lparr>content := PairList_add (content self) k v\<rparr>)"
  by (simp add: keeps_def PairList_add_def)

lemma read_properties_keeps:
  "read_properties n self c = (r, s, c') \<Longrightarrow>
   keeps self s \<and> (\<forall>e. r = Inl e \<longrightarrow> e = Disconnected \<or> e = DecodeError)"
proof (induction n arbitrary: self c)
  case 0
  then show ?case by (auto simp: keeps_refl)
next
  case (Suc n)
  obtain r1 c1 where k: "retrieve_utf8 c = (r1, c1)" by (cases "retrieve_utf8 c")
  show ?case
  proof (cases r1)
    case (Inl e)
    with Suc.prems k retrieve_utf8_error[of c e c1] show ?thesis by (auto simp: keeps_refl)
  next
    case key: (Inr key)
    obtain r2 c2 where v: "retrieve_utf8 c1 = (r2, c2)" by (cases "retrieve_utf8 c1")
    show ?thesis
    proof (cases r2)
      case (Inl e)
      with Suc.prems k key v retrieve_utf8_error[of c1 e c2] show ?thesis
        by (auto simp: keeps_refl)
    next
      case (Inr val)
      with Suc.prems k key v
      have "read_properties n (self\<lparr>properties := dict_set (properties self) key val\<rparr>) c2 =
              (r, s, c')" by simp
      from Suc.IH[OF this] keeps_property[of self key val] show ?thesis
        by (blast intro: keeps_trans)
    qed
  qed
qed

lemma read_content_keeps:
  "read_content n self c = (r, s, c') \<Longrightarrow>
   keeps self s \<and> properties s = properties self \<and>
   (\<forall>e. r = Inl e \<longrightarrow> e = Disconnected \<or> e = DecodeError)"
proof (induction n arbitrary: self c)
  case 0
  then show ?case by (auto simp: keeps_refl)
next
  case (Suc n)
  obtain r1 c1 where k: "retrieve_utf8 c = (r1, c1)" by (cases "retrieve_utf8 c")
  show ?case
  proof (cases r1)
    case (Inl e)
    with Suc.prems k retrieve_utf8_error[of c e c1] show ?thesis by (auto simp: keeps_refl)
  next
    case key: (Inr key)
    obtain r2 c2 where l: "retrieve_int c1 = (r2, c2)" by (cases "retrieve_int c1")
    show ?thesis
    proof (cases r2)
      case (Inl e)
      with Suc.prems k key l retrieve_int_error[of c1 e c2] show ?thesis
        by (auto simp: keeps_refl)
    next
      case len: (Inr len)
      obtain r3 c3 where b: "retrieve_buffer c2 len = (r3, c3)"
        by (cases "retrieve_buffer c2 len")
      show ?thesis
      proof (cases r3)
        case (Inl e)
        with Suc.prems k key l len b retrieve_buffer_loop_error[of c2 len "[]" e c3]
        show ?thesis by (auto simp: keeps_refl retrieve_buffer_def)
      next
        case (Inr val)
        with Suc.prems k key l len b
        have "read_content n (self\<lparr>content := PairList_add (content self) key val\<rparr>) c3 =
                (r, s, c')" by simp
        from Suc.IH[OF this] keeps_content[of self key val] show ?thesis
          by (auto intro: keeps_trans)
      qed
    qed
  qed
qed

lemma read_cases:
  assumes "read self c = (r, s, c')"
  shows "\<exists>s0. keeps self s0 \<and>
           (case r of
              Inl e \<Rightarrow> s = s0 \<and> (e = Disconnected \<or> e = DecodeError)
            | Inr u \<Rightarrow> s = s0\<lparr>function_name := dict_get (properties s0) (Some (str_of ''handler''))\<rparr>)"
proof -
  obtain r1 c1 where a: "retrieve_short c = (r1, c1)" by (cases "retrieve_short c")
  show ?thesis
  proof (cases r1)
    case (Inl e)
    with assms a retrieve_short_error[of c e c1] show ?thesis
      by (auto simp: read_def intro!: exI[of _ self] keeps_refl)
  next
    case n: (Inr prop_size)
    obtain r2 s1 c2 where b: "read_properties (nat prop_size) self c1 = (r2, s1, c2)"
      by (cases "read_properties (nat prop_size) self c1")
    from read_properties_keeps[OF b] have k1: "keeps self s1"
      and e1: "\<And>e. r2 = Inl e \<Longrightarrow> e = Disconnected \<or> e = DecodeError" by auto
    show ?thesis
    proof (cases r2)
      case (Inl e)
      with assms a n b k1 e1[of e] show ?thesis
        by (auto simp: read_def intro!: exI[of _ s1])
    next
      case p: (Inr u)
      obtain r3 c3 where d: "retrieve_short c2 = (r3, c3)" by (cases "retrieve_short c2")
      show ?thesis
      proof (cases r3)
        case (Inl e)
        with assms a n b p d k1 retrieve_short_error[of c2 e c3] show ?thesis
          by (auto simp: read_def intro!: exI[of _ s1])
      next
        case m: (Inr content_size)
        obtain r4 s2 c4 where f: "read_content (nat content_size) s1 c3 = (r4, s2, c4)"
          by (cases "read_content (nat content_size) s1 c3")
        from read_content_keeps[OF f] have k2: "keeps s1 s2"
          and e2: "\<And>e. r4 = Inl e \<Longrightarrow> e = Disconnected \<or> e = DecodeError" by auto
        from keeps_trans[OF k1 k2] have k: "keeps self s2" .
        show ?thesis
        proof (cases r4)
          case (Inl e)
          with assms a n b p d m f k e2[of e] show ?thesis
            by (auto simp: read_def intro!: exI[of _ s2])
        next
          case (Inr u')
          with assms a n b p d m f k show ?thesis
            by (auto simp: read_def intro!: exI[of _ s2])
        qed
      qed
    qed
  qed
qed

lemma read_properties_numeral:
  "read_properties (numeral k) self c = read_properties (Suc (pred_numeral k)) self c"
  by (simp add: numeral_eq_Suc)

text \<open>
  Claim C2, as stated, fails: decoding is not all-or-nothing. On a stream that announces two
  properties, delivers the first and is then closed, \<open>read\<close> raises the disconnect
  error and leaves the first property stored in the request.
\<close>

theorem read_not_atomic_counterexample:
  "fst (read Input_init \<lparr>pending = [[0, 2, 0, 1, 97, 0, 1, 49]], reads = 0\<rparr>) = Inl Disconnected \<and>
   properties (fst (snd (read Input_init \<lparr>pending = [[0, 2, 0, 1, 97, 0, 1, 49]], reads = 0\<rparr>)))
     = [(Some (str_of ''a''), Some (str_of ''1''))] \<and>
   properties Input_init = []"
proof -
  have "read Input_init \<lparr>pending = [[0, 2, 0, 1, 97, 0, 1, 49]], reads = 0\<rparr> =
     (Inl Disconnected,
      \<lparr>function_name = None, properties = [(Some (str_of ''a''), Some (str_of ''1''))],
       content = []\<rparr>,
      \<lparr>pending = [], reads = 6\<rparr>)"
    by (simp add: read_def retrieve_utf8_def retrieve_short_def retrieve_buffer_def recv_def
          unpack_h_def be_nat_def decode_utf8_def Input_init_def str_of_def
          read_properties_numeral)
  then show ?thesis by (simp add: Input_init_def)
qed

text \<open>
  Claim C3, as stated, fails: the function name is not found by a case-insensitive lookup.
  After decoding a frame whose only property is \<open>Handler\<close> = \<open>f\<close>, the function name
  is \<open>None\<close>, while \<open>get_property\<close>, the case-insensitive lookup, finds \<open>f\<close> under
  \<open>handler\<close>.
\<close>

theorem function_name_case_sensitive_counterexample:
  "fst (read Input_init
      \<lparr>pending = [[0, 1, 0, 7, 72, 97, 110, 100, 108, 101, 114, 0, 1, 102, 0, 0]], reads = 0\<rparr>)
     = Inr () \<and>
   function_name (fst (snd (read Input_init
      \<lparr>pending = [[0, 1, 0, 7, 72, 97, 110, 100, 108, 101, 114, 0, 1, 102, 0, 0]], reads = 0\<rparr>)))
     = None \<and>
   fst (get_property (\<lambda>s. s) (fst (snd (read Input_init
      \<lparr>pending = [[0, 1, 0, 7, 72, 97, 110, 100, 108, 101, 114, 0, 1, 102, 0, 0]], reads = 0\<rparr>)))
      (str_of ''handler''))
     = Inr (Some (str_of ''f''))"
proof -
  have "read Input_init
      \<lparr>pending = [[0, 1, 0, 7, 72, 97, 110, 100, 108, 101, 114, 0, 1, 102, 0, 0]], reads = 0\<rparr>
    = (Inr (), \<lparr>function_name = None,
                properties = [(Some (str_of ''Handler''), Some (str_of ''f''))],
                content = []\<rparr>, \<lparr>pending = [], reads = 6\<rparr>)"
    by (simp add: read_def retrieve_utf8_def retrieve_short_def retrieve_buffer_def recv_def
          unpack_h_def be_nat_def decode_utf8_def Input_init_def dict_get_def str_of_def)
  then show ?thesis
    by (simp add: get_property_def str_lower_def str_of_def)
qed

lemma dict_get_absent: "k \<notin> fst ` set d \<Longrightarrow> dict_get d k = None"
proof -
  assume "k \<notin> fst ` set d"
  then have "map_of d k = None" by (simp add: map_of_eq_None_iff)
  then show ?thesis by (simp add: dict_get_def)
qed

lemma dict_get_present:
  "distinct (map fst d) \<Longrightarrow> (k, v) \<in> set d \<Longrightarrow> dict_get d k = v"
  by (simp add: dict_get_def)

text \<open>
  Claim C3, amended. After every successful decode the function name is
  \<open>properties.get('handler')\<close>: the value stored under the key that is exactly
  \<open>handler\<close>, and \<open>None\<close> when no key is exactly \<open>handler\<close>.
\<close>

theorem function_name_exact_lookup:
  "fst (read self c) = Inr () \<longrightarrow>
     function_name (fst (snd (read self c))) =
       dict_get (properties (fst (snd (read self c)))) (Some (str_of ''handler'')) \<and>
     (Some (str_of ''handler'') \<notin> fst ` set (properties (fst (snd (read self c))))
        \<longrightarrow> function_name (fst (snd (read self c))) = None) \<and>
     (distinct (map fst (properties self)) \<and>
      (Some (str_of ''handler''), v) \<in> set (properties (fst (snd (read self c))))
        \<longrightarrow> function_name (fst (snd (read self c))) = v)"
proof
  assume ok: "fst (read self c) = Inr ()"
  obtain s c' where r: "read self c = (Inr (), s, c')"
    using ok by (cases "read self c") auto
  from read_cases[OF r] obtain s0 where k: "keeps self s0"
    and s: "s = s0\<lparr>function_name := dict_get (properties s0) (Some (str_of ''handler''))\<rparr>"
    by auto
  from s have f: "function_name s = dict_get (properties s) (Some (str_of ''handler''))"
    by simp
  from k s have d: "distinct (map fst (properties self)) \<Longrightarrow> distinct (map fst (properties s))"
    by (simp add: keeps_def)
  show "function_name (fst (snd (read self c))) =
       dict_get (properties (fst (snd (read self c)))) (Some (str_of ''handler'')) \<and>
     (Some (str_of ''handler'') \<notin> fst ` set (properties (fst (snd (read self c))))
        \<longrightarrow> function_name (fst (snd (read self c))) = None) \<and>
     (distinct (map fst (properties self)) \<and>
      (Some (str_of ''handler''), v) \<in> set (properties (fst (snd (read self c))))
        \<longrightarrow> function_name (fst (snd (read self c))) = v)"
    unfolding r using f d dict_get_absent[of "Some (str_of ''handler'')" "properties s"]
      dict_get_present[of "properties s" "Some (str_of ''handler'')" v]
    by auto
qed

theorem function_name_exact_lookup_witness:
  "fst (read Input_init
      \<lparr>pending = [[0, 1, 0, 7, 104, 97, 110, 100, 108, 101, 114, 0, 1, 102, 0, 0]], reads = 0\<rparr>)
     = Inr () \<and>
   function_name (fst (snd (read Input_init
      \<lparr>pending = [[0, 1, 0, 7, 104, 97, 110, 100, 108, 101, 114, 0, 1, 102, 0, 0]], reads = 0\<rparr>)))
     = Some (str_of ''f'')"
proof -
  let ?c = "\<lparr>pending = [[0, 1, 0, 7, 104, 97, 110, 100, 108, 101, 114, 0, 1, 102, 0, 0]], reads = 0\<rparr>"
  have r: "read Input_init ?c
    = (Inr (), \<lparr>function_name = Some (str_of ''f''),
                properties = [(Some (str_of ''handler''), Some (str_of ''f''))],
                content = []\<rparr>, \<lparr>pending = [], reads = 6\<rparr>)"
    by (simp add: read_def retrieve_utf8_def retrieve_short_def retrieve_buffer_def recv_def
          unpack_h_def be_nat_def decode_utf8_def Input_init_def dict_get_def str_of_def)
  then have ok: "fst (read Input_init ?c) = Inr ()" by simp
  have m: "(Some (str_of ''handler''), Some (str_of ''f'')) \<in> set (properties (fst (snd (read Input_init ?c))))"
    unfolding r by simp
  have d: "distinct (map fst (properties Input_init))" by (simp add: Input_init_def)
  from function_name_exact_lookup[of Input_init ?c "Some (str_of ''f'')"] ok m d
  show ?thesis by blast
qed


section \<open>Claims about \<open>retrieve_utf8\<close>\<close>

text \<open>
  Claim C6. \<open>retrieve_utf8\<close> reads a signed 16-bit big-endian length. For a negative
  length it returns \<open>None\<close> and has consumed the two bytes of the length and nothing
  more. For a length that is not negative it reads exactly that many further bytes and
  returns them decoded as UTF-8, or raises the decode error when they are not well-formed
  UTF-8.
\<close>

theorem retrieve_utf8_reads_string:
  "(- 32768 \<le> len \<and> len < 0 \<and> delivers c (int16_be len @ rest) \<longrightarrow>
      fst (retrieve_utf8 c) = Inr None \<and> delivers (snd (retrieve_utf8 c)) rest \<and>
      length (int16_be len) = 2) \<and>
   (length data < 32768 \<and> delivers c (int16_be (int (length data)) @ data @ rest) \<longrightarrow>
      fst (retrieve_utf8 c) =
        (case utf8_code_points (map unat data) of
           None \<Rightarrow> Inl DecodeError
         | Some s \<Rightarrow> Inr (Some s)) \<and>
      delivers (snd (retrieve_utf8 c)) rest)"
proof (intro conjI impI)
  assume a: "- 32768 \<le> len \<and> len < 0 \<and> delivers c (int16_be len @ rest)"
  then have "delivers c (enc_str (Null len) @ rest)" "wf_str (Null len)" by simp_all
  from retrieve_utf8_delivers[OF this] obtain c' where
    r: "retrieve_utf8 c = (Inr None, c')" and d: "delivers c' rest" by auto
  from r show "fst (retrieve_utf8 c) = Inr None" by simp
  from r d show "delivers (snd (retrieve_utf8 c)) rest" by simp
  show "length (int16_be len) = 2" by (simp add: int16_be_def)
next
  assume a: "length data < 32768 \<and> delivers c (int16_be (int (length data)) @ data @ rest)"
  then have "delivers c (enc_str (Str data) @ rest)" "wf_str (Str data)" by simp_all
  from retrieve_utf8_delivers[OF this] obtain c' where
    r: "retrieve_utf8 c = (map_sum id Some (decode_utf8 data), c')" and d: "delivers c' rest"
    by auto
  from r show "fst (retrieve_utf8 c) =
        (case utf8_code_points (map unat data) of
           None \<Rightarrow> Inl DecodeError
         | Some s \<Rightarrow> Inr (Some s))"
    by (simp add: decode_utf8_def split: option.splits)
  from r d show "delivers (snd (retrieve_utf8 c)) rest" by simp
qed

theorem retrieve_utf8_reads_string_witness:
  "retrieve_utf8 \<lparr>pending = [[255, 255, 7]], reads = 0\<rparr> =
     (Inr None, \<lparr>pending = [[7]], reads = 1\<rparr>) \<and>
   fst (retrieve_utf8 \<lparr>pending = [[0], [3, 65, 195], [169, 7]], reads = 0\<rparr>) =
     Inr (Some [65, 233]) \<and>
   concat (pending (snd (retrieve_utf8 \<lparr>pending = [[0], [3, 65, 195], [169, 7]], reads = 0\<rparr>))) =
     [7] \<and>
   fst (retrieve_utf8 \<lparr>pending = [[0, 2, 192, 128, 7]], reads = 0\<rparr>) = Inl DecodeError"
proof -
  let ?c1 = "\<lparr>pending = [[255, 255, 7]], reads = 0\<rparr>"
  let ?c2 = "\<lparr>pending = [[0], [3, 65, 195], [169, 7]], reads = 0\<rparr>"
  let ?c3 = "\<lparr>pending = [[0, 2, 192, 128, 7]], reads = 0\<rparr>"
  have e: "int16_be (- 1) = [255, 255]" "int16_be 3 = [0, 3]" "int16_be 2 = [0, 2]"
    by (simp_all add: int16_be_def)
  have h1: "- 32768 \<le> (- 1 :: int) \<and> (- 1 :: int) < 0 \<and> delivers ?c1 (int16_be (- 1) @ [7])"
    by (simp add: e delivers_def)
  have h2: "length [65, 195, 169 :: byte] < 32768 \<and>
      delivers ?c2 (int16_be (int (length [65, 195, 169 :: byte])) @ [65, 195, 169] @ [7])"
    by (simp add: e delivers_def)
  have h3: "length [192, 128 :: byte] < 32768 \<and>
      delivers ?c3 (int16_be (int (length [192, 128 :: byte])) @ [192, 128] @ [7])"
    by (simp add: e delivers_def)
  have a: "retrieve_utf8 ?c1 = (Inr None, \<lparr>pending = [[7]], reads = 1\<rparr>)"
    by (simp add: retrieve_utf8_def retrieve_short_def retrieve_buffer_def recv_def
          unpack_h_def be_nat_def)
  from retrieve_utf8_reads_string[of "- 1" ?c1 "[7]" "[]"] h1
  have a': "fst (retrieve_utf8 ?c1) = Inr None \<and> delivers (snd (retrieve_utf8 ?c1)) [7]"
    by blast
  from retrieve_utf8_reads_string[of 0 ?c2 "[7]" "[65, 195, 169]"] h2
  have b: "fst (retrieve_utf8 ?c2) = Inr (Some [65, 233]) \<and> delivers (snd (retrieve_utf8 ?c2)) [7]"
    by (simp add: is_cont_def)
  from retrieve_utf8_reads_string[of 0 ?c3 "[7]" "[192, 128]"] h3
  have c: "fst (retrieve_utf8 ?c3) = Inl DecodeError"
    by simp
  from a a' b c show ?thesis by (simp add: delivers_def)
qed

section \<open>The decoder and the UTF-8 encoding\<close>

lemma split4096:
  "(cp::nat) = (cp div 4096) * 4096 + (cp div 64 mod 64) * 64 + cp mod 64"
proof -
  have a: "cp div 64 div 64 = cp div 4096" by (simp add: div_mult2_eq[symmetric])
  have "cp div 64 = (cp div 64 div 64) * 64 + cp div 64 mod 64" by simp
  then have b: "cp div 64 = (cp div 4096) * 64 + cp div 64 mod 64" unfolding a .
  have "cp = (cp div 64) * 64 + cp mod 64" by simp
  also have "(cp div 64) * 64 = ((cp div 4096) * 64 + cp div 64 mod 64) * 64"
    using b by simp
  also have "\<dots> = (cp div 4096) * 4096 + (cp div 64 mod 64) * 64"
    by (simp add: algebra_simps)
  finally show ?thesis .
qed


lemma digits2:
  assumes "l < 64"
  shows "(h * 64 + l) div 64 = (h::nat)" "(h * 64 + l) mod 64 = l"
  using assms by simp_all

lemma digits3:
  assumes "m < 64" "l < 64"
  shows "(h * 4096 + m * 64 + l) div 4096 = (h::nat)"
    "(h * 4096 + m * 64 + l) div 64 mod 64 = m"
    "(h * 4096 + m * 64 + l) mod 64 = l"
proof -
  have e: "h * 4096 + m * 64 + l = (h * 64 + m) * 64 + l" by simp
  have d: "(h * 4096 + m * 64 + l) div 64 = h * 64 + m"
    using digits2(1)[OF assms(2), of "h * 64 + m"] by (simp only: e)
  show "(h * 4096 + m * 64 + l) mod 64 = l"
    using digits2(2)[OF assms(2), of "h * 64 + m"] by (simp only: e)
  show "(h * 4096 + m * 64 + l) div 64 mod 64 = m"
    using digits2(2)[OF assms(1), of h] by (simp only: d)
  have "(h * 4096 + m * 64 + l) div 4096 = (h * 4096 + m * 64 + l) div 64 div 64"
    by (simp add: div_mult2_eq[symmetric])
  also have "\<dots> = h"
    using digits2(1)[OF assms(1), of h] by (simp only: d)
  finally show "(h * 4096 + m * 64 + l) div 4096 = h" .
qed

lemma digits4:
  assumes "n < 64" "m < 64" "l < 64"
  shows "(h * 262144 + n * 4096 + m * 64 + l) div 262144 = (h::nat)"
    "(h * 262144 + n * 4096 + m * 64 + l) div 4096 mod 64 = n"
    "(h * 262144 + n * 4096 + m * 64 + l) div 64 mod 64 = m"
    "(h * 262144 + n * 4096 + m * 64 + l) mod 64 = l"
proof -
  have e: "h * 262144 + n * 4096 + m * 64 + l = (h * 64 + n) * 4096 + m * 64 + l" by simp
  have d: "(h * 262144 + n * 4096 + m * 64 + l) div 4096 = h * 64 + n"
    using digits3(1)[OF assms(2,3), of "h * 64 + n"] by (simp only: e)
  show "(h * 262144 + n * 4096 + m * 64 + l) div 64 mod 64 = m"
    using digits3(2)[OF assms(2,3), of "h * 64 + n"] by (simp only: e)
  show "(h * 262144 + n * 4096 + m * 64 + l) mod 64 = l"
    using digits3(3)[OF assms(2,3), of "h * 64 + n"] by (simp only: e)
  show "(h * 262144 + n * 4096 + m * 64 + l) div 4096 mod 64 = n"
    using digits2(2)[OF assms(1), of h] by (simp only: d)
  have "(h * 262144 + n * 4096 + m * 64 + l) div 262144 =
      (h * 262144 + n * 4096 + m * 64 + l) div 4096 div 64"
    by (simp add: div_mult2_eq[symmetric])
  also have "\<dots> = h"
    using digits2(1)[OF assms(1), of h] by (simp only: d)
  finally show "(h * 262144 + n * 4096 + m * 64 + l) div 262144 = h" .
qed

lemma split262144:
  "(cp::nat) = (cp div 262144) * 262144 + (cp div 4096 mod 64) * 4096 +
               (cp div 64 mod 64) * 64 + cp mod 64"
proof -
  have a: "cp div 4096 div 64 = cp div 262144" by (simp add: div_mult2_eq[symmetric])
  have "cp div 4096 = (cp div 4096 div 64) * 64 + cp div 4096 mod 64" by simp
  then have b: "cp div 4096 = (cp div 262144) * 64 + cp div 4096 mod 64" unfolding a .
  have "(cp div 4096) * 4096 = ((cp div 262144) * 64 + cp div 4096 mod 64) * 4096"
    using b by simp
  also have "\<dots> = (cp div 262144) * 262144 + (cp div 4096 mod 64) * 4096"
    by (simp add: algebra_simps)
  finally have c: "(cp div 4096) * 4096 =
      (cp div 262144) * 262144 + (cp div 4096 mod 64) * 4096" .
  show ?thesis using split4096[of cp] unfolding c by simp
qed


lemma utf8_bytes_decode:
  assumes "scalar_value cp"
  shows "utf8_code_points (utf8_bytes cp @ bs) = map_option ((#) cp) (utf8_code_points bs)"
proof -
  consider "cp < 128" | "128 \<le> cp" "cp < 2048" | "2048 \<le> cp" "cp < 65536" | "65536 \<le> cp"
    by linarith
  then show ?thesis
  proof cases
    case 1
    then show ?thesis by (simp add: utf8_bytes_def)
  next
    case 2
    define h l where "h = cp div 64" and "l = cp mod 64"
    have cp: "cp = h * 64 + l" and l: "l < 64" by (simp_all add: h_def l_def)
    from 2 cp l have h: "2 \<le> h" "h \<le> 31" by linarith+
    have "utf8_bytes cp = [192 + h, 128 + l]"
      using 2 by (simp add: utf8_bytes_def h_def l_def)
    then show ?thesis using h l by (simp add: is_cont_def cp)
  next
    case 3
    define h m l where "h = cp div 4096" and "m = cp div 64 mod 64" and "l = cp mod 64"
    have cp: "cp = h * 4096 + m * 64 + l" and m: "m < 64" and l: "l < 64"
      using split4096[of cp] by (simp_all add: h_def m_def l_def)
    from 3 cp m l have h: "h \<le> 15" and h0: "h = 0 \<Longrightarrow> 32 \<le> m" by linarith+
    from assms 3 cp m l have h13: "h = 13 \<Longrightarrow> m < 32"
      unfolding scalar_value_def by linarith
    have "utf8_bytes cp = [224 + h, 128 + m, 128 + l]"
      using 3 by (simp add: utf8_bytes_def h_def m_def l_def)
    then show ?thesis using h h0 h13 m l by (auto simp: is_cont_def cp)
  next
    case 4
    define h n m l where "h = cp div 262144" and "n = cp div 4096 mod 64"
      and "m = cp div 64 mod 64" and "l = cp mod 64"
    have cp: "cp = h * 262144 + n * 4096 + m * 64 + l"
      and n: "n < 64" and m: "m < 64" and l: "l < 64"
      using split262144[of cp] by (simp_all add: h_def n_def m_def l_def)
    from assms 4 have lt: "cp < 1114112" unfolding scalar_value_def by linarith
    from lt cp n m l have h: "h \<le> 4" and h4: "h = 4 \<Longrightarrow> n < 16" by linarith+
    from 4 cp n m l have h0: "h = 0 \<Longrightarrow> 16 \<le> n" by linarith
    have "utf8_bytes cp = [240 + h, 128 + n, 128 + m, 128 + l]"
      using 4 by (simp add: utf8_bytes_def h_def n_def m_def l_def)
    then show ?thesis using h h0 h4 n m l by (auto simp: is_cont_def cp)
  qed
qed

lemma utf8_decode_encode:
  "list_all scalar_value s \<Longrightarrow> utf8_code_points (utf8_encode s) = Some s"
  by (induction s) (simp_all add: utf8_encode_def utf8_bytes_decode)


lemma two_bytes_encode:
  assumes "194 \<le> b" "b \<le> 223" "is_cont c1"
  shows "scalar_value ((b - 192) * 64 + (c1 - 128)) \<and>
         utf8_bytes ((b - 192) * 64 + (c1 - 128)) = [b, c1]"
proof -
  define h l where "h = b - 192" and "l = c1 - 128"
  from assms have b: "b = 192 + h" and c1: "c1 = 128 + l" and l: "l < 64"
    and h: "2 \<le> h" "h \<le> 31"
    by (auto simp: h_def l_def is_cont_def)
  define cp where "cp = h * 64 + l"
  from h l have r: "128 \<le> cp" "cp < 2048" unfolding cp_def by linarith+
  have d: "cp div 64 = h" "cp mod 64 = l" unfolding cp_def using digits2[OF l, of h] by simp_all
  from r have "scalar_value cp" by (simp add: scalar_value_def)
  moreover from r d have "utf8_bytes cp = [b, c1]" by (simp add: utf8_bytes_def b c1)
  ultimately show ?thesis by (simp add: cp_def h_def l_def)
qed

lemma three_bytes_encode:
  assumes "224 \<le> b" "b \<le> 239" "(if b = 224 then 160 else 128) \<le> c1"
    "c1 \<le> (if b = 237 then 159 else 191)" "is_cont c2"
  shows "scalar_value ((b - 224) * 4096 + (c1 - 128) * 64 + (c2 - 128)) \<and>
         utf8_bytes ((b - 224) * 4096 + (c1 - 128) * 64 + (c2 - 128)) = [b, c1, c2]"
proof -
  define h m l where "h = b - 224" and "m = c1 - 128" and "l = c2 - 128"
  from assms have b: "b = 224 + h" and c1: "c1 = 128 + m" and c2: "c2 = 128 + l"
    and m: "m < 64" and l: "l < 64" and h: "h \<le> 15"
    by (auto simp: h_def m_def l_def is_cont_def split: if_splits)
  from assms have h0: "h = 0 \<Longrightarrow> 32 \<le> m" and h13: "h = 13 \<Longrightarrow> m < 32"
    by (auto simp: h_def m_def split: if_splits)
  define cp where "cp = h * 4096 + m * 64 + l"
  have lo: "2048 \<le> cp"
  proof (cases "h = 0")
    case True
    with h0 show ?thesis unfolding cp_def by simp
  next
    case False
    then show ?thesis unfolding cp_def by simp
  qed
  from h m l have hi: "cp < 65536" unfolding cp_def by linarith
  have sc: "cp < 55296 \<or> 57344 \<le> cp"
  proof -
    consider "h < 13" | "h = 13" | "14 \<le> h" by linarith
    then show ?thesis
    proof cases
      case 1
      with m l show ?thesis unfolding cp_def by linarith
    next
      case 2
      with h13 l show ?thesis unfolding cp_def by simp
    next
      case 3
      then show ?thesis unfolding cp_def by linarith
    qed
  qed
  have d: "cp div 4096 = h" "cp div 64 mod 64 = m" "cp mod 64 = l"
    unfolding cp_def using digits3[OF m l, of h] by simp_all
  from sc hi have "scalar_value cp" by (auto simp: scalar_value_def)
  moreover from lo hi d have "utf8_bytes cp = [b, c1, c2]"
    by (simp add: utf8_bytes_def b c1 c2)
  ultimately show ?thesis by (simp add: cp_def h_def m_def l_def)
qed

lemma four_bytes_encode:
  assumes "240 \<le> b" "b \<le> 244" "(if b = 240 then 144 else 128) \<le> c1"
    "c1 \<le> (if b = 244 then 143 else 191)" "is_cont c2" "is_cont c3"
  shows "scalar_value ((b - 240) * 262144 + (c1 - 128) * 4096 + (c2 - 128) * 64 + (c3 - 128)) \<and>
         utf8_bytes ((b - 240) * 262144 + (c1 - 128) * 4096 + (c2 - 128) * 64 + (c3 - 128)) =
           [b, c1, c2, c3]"
proof -
  define h n m l where "h = b - 240" and "n = c1 - 128" and "m = c2 - 128" and "l = c3 - 128"
  from assms have b: "b = 240 + h" and c1: "c1 = 128 + n" and c2: "c2 = 128 + m"
    and c3: "c3 = 128 + l"
    and n: "n < 64" and m: "m < 64" and l: "l < 64" and h: "h \<le> 4"
    by (auto simp: h_def n_def m_def l_def is_cont_def split: if_splits)
  from assms have h0: "h = 0 \<Longrightarrow> 16 \<le> n" and h4: "h = 4 \<Longrightarrow> n < 16"
    by (auto simp: h_def n_def split: if_splits)
  define cp where "cp = h * 262144 + n * 4096 + m * 64 + l"
  have lo: "65536 \<le> cp"
  proof (cases "h = 0")
    case True
    with h0 show ?thesis unfolding cp_def by simp
  next
    case False
    then show ?thesis unfolding cp_def by simp
  qed
  have hi: "cp < 1114112"
  proof (cases "h = 4")
    case True
    with h4 m l show ?thesis unfolding cp_def by simp
  next
    case False
    with h n m l show ?thesis unfolding cp_def by linarith
  qed
  have d: "cp div 262144 = h" "cp div 4096 mod 64 = n" "cp div 64 mod 64 = m" "cp mod 64 = l"
    unfolding cp_def using digits4[OF n m l, of h] by simp_all
  from lo hi have "scalar_value cp" by (simp add: scalar_value_def)
  moreover from lo d have "utf8_bytes cp = [b, c1, c2, c3]"
    by (simp add: utf8_bytes_def b c1 c2 c3)
  ultimately show ?thesis by (simp add: cp_def h_def n_def m_def l_def)
qed

text \<open>
  Together with \<open>utf8_decode_encode\<close>: the decoder accepts exactly the encodings of
  sequences of scalar values, and returns the sequence encoded.
\<close>

lemma utf8_encode_decode:
  "utf8_code_points bs = Some s \<Longrightarrow> list_all scalar_value s \<and> utf8_encode s = bs"
proof (induction bs arbitrary: s rule: length_induct)
  case (1 bs)
  note IH = "1.IH"[rule_format] and dec = "1.prems"
  show ?case
  proof (cases bs)
    case Nil
    with dec show ?thesis by (simp add: utf8_encode_def)
  next
    case (Cons b r)
    consider "b < 128" | "194 \<le> b" "b \<le> 223" | "224 \<le> b" "b \<le> 239"
      | "240 \<le> b" "b \<le> 244" | "128 \<le> b" "b < 194" | "244 < b"
      by linarith
    then show ?thesis
    proof cases
      case 1
      with dec Cons obtain t where t: "utf8_code_points r = Some t" and s: "s = b # t"
        by auto
      from IH[of r t] t Cons have "list_all scalar_value t \<and> utf8_encode t = r" by simp
      moreover from 1 have "scalar_value b" "utf8_bytes b = [b]"
        by (simp_all add: scalar_value_def utf8_bytes_def)
      ultimately show ?thesis using s Cons
        by (simp add: utf8_encode_def)
    next
      case 2
      with dec Cons obtain c1 r' t where r: "r = c1 # r'" and c: "is_cont c1"
        and t: "utf8_code_points r' = Some t"
        and s: "s = ((b - 192) * 64 + (c1 - 128)) # t"
        by (auto split: list.splits if_splits)
      from IH[of r' t] t Cons r have "list_all scalar_value t \<and> utf8_encode t = r'" by simp
      with two_bytes_encode[OF 2 c] s Cons r show ?thesis
        by (simp add: utf8_encode_def)
    next
      case 3
      with dec Cons obtain c1 c2 r' t where r: "r = c1 # c2 # r'"
        and c: "(if b = 224 then 160 else 128) \<le> c1" "c1 \<le> (if b = 237 then 159 else 191)"
          "is_cont c2"
        and t: "utf8_code_points r' = Some t"
        and s: "s = ((b - 224) * 4096 + (c1 - 128) * 64 + (c2 - 128)) # t"
        by (auto split: list.splits if_splits)
      from IH[of r' t] t Cons r have "list_all scalar_value t \<and> utf8_encode t = r'" by simp
      with three_bytes_encode[OF 3 c] s Cons r show ?thesis
        by (simp add: utf8_encode_def)
    next
      case 4
      with dec Cons obtain c1 c2 c3 r' t where r: "r = c1 # c2 # c3 # r'"
        and c: "(if b = 240 then 144 else 128) \<le> c1" "c1 \<le> (if b = 244 then 143 else 191)"
          "is_cont c2" "is_cont c3"
        and t: "utf8_code_points r' = Some t"
        and s: "s = ((b - 240) * 262144 + (c1 - 128) * 4096 + (c2 - 128) * 64 + (c3 - 128)) # t"
        by (auto split: list.splits if_splits)
      from IH[of r' t] t Cons r have "list_all scalar_value t \<and> utf8_encode t = r'" by simp
      with four_bytes_encode[OF 4 c] s Cons r show ?thesis
        by (simp add: utf8_encode_def)
    next
      case 5
      with dec Cons show ?thesis by simp
    next
      case 6
      with dec Cons show ?thesis by simp
    qed
  qed
qed

section \<open>What a failing \<open>read\<close> leaves in the request\<close>

lemma retrieve_buffer_closed:
  assumes "delivers c bs" "int (length bs) < len"
  shows "fst (retrieve_buffer c len) = Inl Disconnected"
  using assms retrieve_buffer_loop_disconnected[of "pending c" len c "[]" "[]"]
  by (simp add: delivers_def retrieve_buffer_def)

lemma retrieve_short_closed:
  assumes "delivers c bs" "length bs < 2"
  shows "fst (retrieve_short c) = Inl Disconnected"
proof -
  from assms have "fst (retrieve_buffer c 2) = Inl Disconnected"
    by (intro retrieve_buffer_closed[of c bs]) simp_all
  then show ?thesis
    by (cases "retrieve_buffer c 2") (simp add: retrieve_short_def)
qed

lemma retrieve_int_closed:
  assumes "delivers c bs" "length bs < 4"
  shows "fst (retrieve_int c) = Inl Disconnected"
proof -
  from assms have "fst (retrieve_buffer c 4) = Inl Disconnected"
    by (intro retrieve_buffer_closed[of c bs]) simp_all
  then show ?thesis
    by (cases "retrieve_buffer c 4") (simp add: retrieve_int_def)
qed

lemma length_int16_be: "length (int16_be i) = 2"
  by (simp add: int16_be_def)

lemma retrieve_utf8_bad:
  assumes "wf_bad b" "delivers c (enc_bad b @ bad_tail b rest)"
  shows "fst (retrieve_utf8 c) = Inl (err_bad b)"
proof (cases b)
  case (Invalid data)
  with assms have "delivers c (enc_str (Str data) @ rest)" "wf_str (Str data)"
    and inv: "utf8_code_points (map unat data) = None" by simp_all
  from retrieve_utf8_delivers[OF this(1,2)] inv Invalid show ?thesis
    by (auto simp: decode_utf8_def)
next
  case (Truncated w k)
  with assms have d: "delivers c (take k (enc_str w))" and wf: "wf_str w"
    and k: "k < length (enc_str w)" by simp_all
  show ?thesis
  proof (cases "k < 2")
    case True
    then have "length (take k (enc_str w)) < 2" by simp
    from retrieve_short_closed[OF d this] Truncated show ?thesis
      by (cases "retrieve_short c") (simp add: retrieve_utf8_def)
  next
    case False
    with k obtain data where w: "w = Str data"
      by (cases w) (simp_all add: length_int16_be)
    let ?n = "int (length data)"
    from False have tk: "take k (enc_str w) = int16_be ?n @ take (k - 2) data"
      by (simp add: w length_int16_be)
    from wf w have r: "- 32768 \<le> ?n" "?n < 32768" by simp_all
    from d have "delivers c (int16_be ?n @ take (k - 2) data)" unfolding tk .
    from retrieve_short_delivers[OF this r] obtain c1 where
      s: "retrieve_short c = (Inr ?n, c1)" and d1: "delivers c1 (take (k - 2) data)" by blast
    from k False have "int (length (take (k - 2) data)) < ?n"
      by (simp add: w length_int16_be)
    from retrieve_buffer_closed[OF d1 this] s Truncated show ?thesis
      by (cases "retrieve_buffer c1 ?n") (simp add: retrieve_utf8_def)
  qed
qed

lemma read_properties_prefix:
  "list_all wf_prop ps \<Longrightarrow> delivers c (concat (map enc_prop ps) @ rest) \<Longrightarrow>
   \<exists>c'. delivers c' rest \<and>
        read_properties (length ps + n) self c =
          read_properties n
            (self\<lparr>properties := assign_all (properties self) (decoded_props ps)\<rparr>) c'"
proof (induction ps arbitrary: self c)
  case Nil
  then show ?case by (auto simp: assign_all_def decoded_props_def)
next
  case (Cons p ps)
  obtain k v where p: "p = (k, v)" by (cases p)
  from Cons.prems(1) have "wf_prop p" and wfs: "list_all wf_prop ps" by simp_all
  with p have wf: "wf_str k" "is_text k" "wf_str v" "is_text v" by simp_all
  from Cons.prems(2) p
  have d: "delivers c (enc_str k @ enc_str v @ concat (map enc_prop ps) @ rest)" by simp
  from retrieve_utf8_text[OF d wf(1,2)] obtain c1 where
    k: "retrieve_utf8 c = (Inr (text_of k), c1)"
    and d1: "delivers c1 (enc_str v @ concat (map enc_prop ps) @ rest)" by blast
  from retrieve_utf8_text[OF d1 wf(3,4)] obtain c2 where
    v: "retrieve_utf8 c1 = (Inr (text_of v), c2)"
    and d2: "delivers c2 (concat (map enc_prop ps) @ rest)" by blast
  let ?s = "self\<lparr>properties := dict_set (properties self) (text_of k) (text_of v)\<rparr>"
  from Cons.IH[OF wfs d2, of ?s] obtain c' where d': "delivers c' rest"
    and r: "read_properties (length ps + n) ?s c2 =
      read_properties n (?s\<lparr>properties := assign_all (properties ?s) (decoded_props ps)\<rparr>) c'"
    by blast
  have "read_properties (length (p # ps) + n) self c = read_properties (length ps + n) ?s c2"
    using k v by simp
  also note r
  also have "?s\<lparr>properties := assign_all (properties ?s) (decoded_props ps)\<rparr> =
      self\<lparr>properties := assign_all (properties self) (decoded_props (p # ps))\<rparr>"
    by (simp add: p assign_all_def decoded_props_def)
  finally show ?case using d' by blast
qed

lemma read_content_prefix:
  "list_all wf_item its \<Longrightarrow> delivers c (concat (map enc_item its) @ rest) \<Longrightarrow>
   \<exists>c'. delivers c' rest \<and>
        read_content (length its + n) self c =
          read_content n (self\<lparr>content := content self @ decoded_items its\<rparr>) c'"
proof (induction its arbitrary: self c)
  case Nil
  then show ?case by (auto simp: decoded_items_def)
next
  case (Cons it its)
  obtain k len data where it: "it = (k, len, data)" by (cases it)
  from Cons.prems it have wf: "wf_str k" "is_text k" "- 2147483648 \<le> len" "len < 2147483648"
    "length data = nat len" "list_all wf_item its"
    by auto
  from Cons.prems(2) it
  have d: "delivers c (enc_str k @ int32_be len @ data @ concat (map enc_item its) @ rest)"
    by simp
  from retrieve_utf8_text[OF d wf(1,2)] obtain c1 where
    k: "retrieve_utf8 c = (Inr (text_of k), c1)"
    and d1: "delivers c1 (int32_be len @ data @ concat (map enc_item its) @ rest)" by blast
  from retrieve_int_delivers[OF d1 wf(3,4)] obtain c2 where
    l: "retrieve_int c1 = (Inr len, c2)"
    and d2: "delivers c2 (data @ concat (map enc_item its) @ rest)" by blast
  have "\<exists>c3. retrieve_buffer c2 len = (Inr data, c3) \<and>
          delivers c3 (concat (map enc_item its) @ rest)"
  proof (cases "len \<le> 0")
    case True
    with wf(5) d2 show ?thesis by (simp add: retrieve_buffer_def)
  next
    case False
    with wf(5) have "len = int (length data)" by simp
    from retrieve_buffer_delivers[OF d2 this] show ?thesis .
  qed
  then obtain c3 where
    b: "retrieve_buffer c2 len = (Inr data, c3)"
    and d3: "delivers c3 (concat (map enc_item its) @ rest)" by blast
  let ?s = "self\<lparr>content := PairList_add (content self) (text_of k) data\<rparr>"
  from Cons.IH[OF wf(6) d3, of ?s] obtain c' where d': "delivers c' rest"
    and r: "read_content (length its + n) ?s c3 =
      read_content n (?s\<lparr>content := content ?s @ decoded_items its\<rparr>) c'"
    by blast
  have "read_content (length (it # its) + n) self c = read_content (length its + n) ?s c3"
    using k l b by simp
  also note r
  also have "?s\<lparr>content := content ?s @ decoded_items its\<rparr> =
      self\<lparr>content := content self @ decoded_items (it # its)\<rparr>"
    by (simp add: it decoded_items_def PairList_add_def)
  finally show ?case using d' by blast
qed

lemma read_properties_bad_key:
  assumes "wf_bad b" "delivers c (enc_bad b @ bad_tail b rest)"
  shows "fst (read_properties (Suc n) s c) = Inl (err_bad b) \<and>
         fst (snd (read_properties (Suc n) s c)) = s"
  using retrieve_utf8_bad[OF assms]
  by (cases "retrieve_utf8 c") simp

lemma read_properties_bad_value:
  assumes "wf_str key" "is_text key" "wf_bad b"
    "delivers c (enc_str key @ enc_bad b @ bad_tail b rest)"
  shows "fst (read_properties (Suc n) s c) = Inl (err_bad b) \<and>
         fst (snd (read_properties (Suc n) s c)) = s"
proof -
  from retrieve_utf8_text[OF assms(4,1,2)] obtain c1 where
    k: "retrieve_utf8 c = (Inr (text_of key), c1)"
    and d1: "delivers c1 (enc_bad b @ bad_tail b rest)" by blast
  from retrieve_utf8_bad[OF assms(3) d1] k show ?thesis
    by (cases "retrieve_utf8 c1") simp
qed

lemma read_content_bad_key:
  assumes "wf_bad b" "delivers c (enc_bad b @ bad_tail b rest)"
  shows "fst (read_content (Suc n) s c) = Inl (err_bad b) \<and>
         fst (snd (read_content (Suc n) s c)) = s"
  using retrieve_utf8_bad[OF assms]
  by (cases "retrieve_utf8 c") simp

lemma read_content_no_length:
  assumes "wf_str key" "is_text key" "length part < 4" "delivers c (enc_str key @ part)"
  shows "fst (read_content (Suc n) s c) = Inl Disconnected \<and>
         fst (snd (read_content (Suc n) s c)) = s"
proof -
  from retrieve_utf8_text[OF assms(4,1,2)] obtain c1 where
    k: "retrieve_utf8 c = (Inr (text_of key), c1)"
    and d1: "delivers c1 part" by blast
  from retrieve_int_closed[OF d1 assms(3)] k show ?thesis
    by (cases "retrieve_int c1") simp
qed

lemma read_content_no_data:
  assumes "wf_str key" "is_text key" "- 2147483648 \<le> len" "len < 2147483648"
    "int (length part) < len" "delivers c (enc_str key @ int32_be len @ part)"
  shows "fst (read_content (Suc n) s c) = Inl Disconnected \<and>
         fst (snd (read_content (Suc n) s c)) = s"
proof -
  from retrieve_utf8_text[OF assms(6,1,2)] obtain c1 where
    k: "retrieve_utf8 c = (Inr (text_of key), c1)"
    and d1: "delivers c1 (int32_be len @ part)" by blast
  from retrieve_int_delivers[OF d1 assms(3,4)] obtain c2 where
    l: "retrieve_int c1 = (Inr len, c2)" and d2: "delivers c2 part" by blast
  from retrieve_buffer_closed[OF d2 assms(5)] k l show ?thesis
    by (cases "retrieve_buffer c2 len") simp
qed

lemma stored_nothing: "stored self [] [] = self"
  by (simp add: stored_def assign_all_def decoded_props_def decoded_items_def)

lemma read_fails_at_prop_count:
  assumes "length part < 2" "delivers c part"
  shows "fst (read self c) = Inl Disconnected \<and> fst (snd (read self c)) = self"
  using retrieve_short_closed[OF assms(2,1)]
  by (cases "retrieve_short c") (simp add: read_def)

lemma read_fails_in_properties:
  assumes wf: "wf_props_section pc ps" and lt: "length ps < nat pc"
    and d: "delivers c (props_section pc ps @ tail)"
    and step: "\<And>c' n s. delivers c' tail \<Longrightarrow>
       fst (read_properties (Suc n) s c') = Inl e \<and>
       fst (snd (read_properties (Suc n) s c')) = s"
  shows "fst (read self c) = Inl e \<and> fst (snd (read self c)) = stored self ps []"
proof -
  from wf have r: "- 32768 \<le> pc" "pc < 32768" and w: "list_all wf_prop ps"
    by (simp_all add: wf_props_section_def)
  from d have "delivers c (int16_be pc @ concat (map enc_prop ps) @ tail)"
    by (simp add: props_section_def)
  from retrieve_short_delivers[OF this r] obtain c1 where
    s: "retrieve_short c = (Inr pc, c1)"
    and d1: "delivers c1 (concat (map enc_prop ps) @ tail)" by blast
  define n where "n = nat pc - Suc (length ps)"
  from lt have np: "nat pc = length ps + Suc n" by (simp add: n_def)
  let ?s = "self\<lparr>properties := assign_all (properties self) (decoded_props ps)\<rparr>"
  from read_properties_prefix[OF w d1, of "Suc n" self] obtain c' where
    d': "delivers c' tail"
    and p: "read_properties (nat pc) self c1 = read_properties (Suc n) ?s c'"
    unfolding np by blast
  from step[OF d', of n ?s] p
  have "fst (read_properties (nat pc) self c1) = Inl e"
    and "fst (snd (read_properties (nat pc) self c1)) = ?s" by simp_all
  then obtain c2 where "read_properties (nat pc) self c1 = (Inl e, ?s, c2)"
    by (cases "read_properties (nat pc) self c1") auto
  with s show ?thesis
    by (simp add: read_def stored_def decoded_items_def)
qed

lemma read_reaches_content:
  assumes wf: "wf_props_section pc ps" and eq: "length ps = nat pc"
    and d: "delivers c (props_section pc ps @ tail)"
  shows "\<exists>c1 c2. retrieve_short c = (Inr pc, c1) \<and>
           read_properties (nat pc) self c1 = (Inr (), stored self ps [], c2) \<and>
           delivers c2 tail"
proof -
  from wf have r: "- 32768 \<le> pc" "pc < 32768" and w: "list_all wf_prop ps"
    by (simp_all add: wf_props_section_def)
  from d have "delivers c (int16_be pc @ concat (map enc_prop ps) @ tail)"
    by (simp add: props_section_def)
  from retrieve_short_delivers[OF this r] obtain c1 where
    s: "retrieve_short c = (Inr pc, c1)"
    and d1: "delivers c1 (concat (map enc_prop ps) @ tail)" by blast
  from read_properties_delivers[OF w d1, of self] obtain c2 where
    "read_properties (length ps) self c1 =
       (Inr (), self\<lparr>properties := assign_all (properties self) (decoded_props ps)\<rparr>, c2)"
    and "delivers c2 tail" by blast
  with s eq show ?thesis by (simp add: stored_def decoded_items_def)
qed

lemma read_fails_at_content_count:
  assumes wf: "wf_props_section pc ps" and eq: "length ps = nat pc"
    and part: "length part < 2"
    and d: "delivers c (props_section pc ps @ part)"
  shows "fst (read self c) = Inl Disconnected \<and> fst (snd (read self c)) = stored self ps []"
proof -
  from read_reaches_content[OF wf eq d, of self] obtain c1 c2 where
    s: "retrieve_short c = (Inr pc, c1)"
    and p: "read_properties (nat pc) self c1 = (Inr (), stored self ps [], c2)"
    and d2: "delivers c2 part" by blast
  from retrieve_short_closed[OF d2 part] s p show ?thesis
    by (cases "retrieve_short c2") (simp add: read_def)
qed

lemma read_fails_in_content:
  assumes wf: "wf_props_section pc ps" and eq: "length ps = nat pc"
    and wfc: "wf_content_section cc its" and lt: "length its < nat cc"
    and d: "delivers c (props_section pc ps @ content_section cc its @ tail)"
    and step: "\<And>c' n s. delivers c' tail \<Longrightarrow>
       fst (read_content (Suc n) s c') = Inl e \<and>
       fst (snd (read_content (Suc n) s c')) = s"
  shows "fst (read self c) = Inl e \<and> fst (snd (read self c)) = stored self ps its"
proof -
  from wfc have r: "- 32768 \<le> cc" "cc < 32768" and w: "list_all wf_item its"
    by (simp_all add: wf_content_section_def)
  from read_reaches_content[OF wf eq d, of self] obtain c1 c2 where
    s: "retrieve_short c = (Inr pc, c1)"
    and p: "read_properties (nat pc) self c1 = (Inr (), stored self ps [], c2)"
    and d2: "delivers c2 (content_section cc its @ tail)" by blast
  from d2 have "delivers c2 (int16_be cc @ concat (map enc_item its) @ tail)"
    by (simp add: content_section_def)
  from retrieve_short_delivers[OF this r] obtain c3 where
    s3: "retrieve_short c2 = (Inr cc, c3)"
    and d3: "delivers c3 (concat (map enc_item its) @ tail)" by blast
  define n where "n = nat cc - Suc (length its)"
  from lt have nc: "nat cc = length its + Suc n" by (simp add: n_def)
  let ?s1 = "stored self ps []"
  let ?s = "?s1\<lparr>content := content ?s1 @ decoded_items its\<rparr>"
  from read_content_prefix[OF w d3, of "Suc n" ?s1] obtain c' where
    d': "delivers c' tail"
    and q: "read_content (nat cc) ?s1 c3 = read_content (Suc n) ?s c'"
    unfolding nc by blast
  from step[OF d', of n ?s] q
  have "fst (read_content (nat cc) ?s1 c3) = Inl e"
    and "fst (snd (read_content (nat cc) ?s1 c3)) = ?s" by simp_all
  then obtain c4 where "read_content (nat cc) ?s1 c3 = (Inl e, ?s, c4)"
    by (cases "read_content (nat cc) ?s1 c3") auto
  moreover have "?s = stored self ps its"
    by (simp add: stored_def decoded_items_def)
  ultimately show ?thesis using s p s3 by (simp add: read_def)
qed

lemma read_failing:
  assumes "wf_failing f" "delivers c (enc_failing f)"
  shows "fst (read self c) = Inl (err_failing f) \<and>
         fst (snd (read self c)) = stored self (props_read f) (pairs_read f)"
proof (cases f)
  case (NoPropCount part)
  with assms read_fails_at_prop_count[of part c self] show ?thesis
    by (simp add: stored_nothing)
next
  case (BadProp pc ps key b rest)
  show ?thesis
  proof (cases key)
    case None
    with assms BadProp
    read_fails_in_properties[of pc ps c "enc_bad b @ bad_tail b rest" "err_bad b" self]
      read_properties_bad_key[of b _ rest]
    show ?thesis by simp
  next
    case (Some k)
    with assms BadProp
    read_fails_in_properties[of pc ps c "enc_str k @ enc_bad b @ bad_tail b rest" "err_bad b" self]
      read_properties_bad_value[of k b _ rest]
    show ?thesis by simp
  qed
next
  case (NoContentCount pc ps part)
  with assms read_fails_at_content_count[of pc ps part c self] show ?thesis by simp
next
  case (BadItemKey pc ps cc its b rest)
  with assms
    read_fails_in_content[of pc ps cc its c "enc_bad b @ bad_tail b rest" "err_bad b" self]
    read_content_bad_key[of b _ rest]
  show ?thesis by simp
next
  case (NoItemLength pc ps cc its key part)
  with assms
    read_fails_in_content[of pc ps cc its c "enc_str key @ part" Disconnected self]
    read_content_no_length[of key part]
  show ?thesis by simp
next
  case (NoItemData pc ps cc its key len part)
  with assms
    read_fails_in_content[of pc ps cc its c "enc_str key @ int32_be len @ part" Disconnected self]
    read_content_no_data[of key len part]
  show ?thesis by simp
qed

text \<open>
  Claim C2, amended. When a primitive read fails part-way through \<open>read\<close>, on a stream
  closed inside the frame or at a string that is not UTF-8, \<open>read\<close> raises that
  failure, the disconnect or the decode error, and the function name is not assigned. The
  request is not rolled back: it holds exactly the properties and the content pairs that
  were completely read before the failing read, with their values. Whatever the stream, a
  failing \<open>read\<close> raises one of these two errors, leaves the function name as it was
  and removes no property key and no content pair.
\<close>

theorem read_failure_keeps_stored_pairs:
  "(wf_failing f \<and> delivers c (enc_failing f) \<longrightarrow>
      fst (read self c) = Inl (err_failing f) \<and>
      (err_failing f = Disconnected \<or> err_failing f = DecodeError) \<and>
      properties (fst (snd (read self c))) =
        assign_all (properties self) (decoded_props (props_read f)) \<and>
      content (fst (snd (read self c))) = content self @ decoded_items (pairs_read f) \<and>
      function_name (fst (snd (read self c))) = function_name self) \<and>
   (fst (read self c) = Inl e \<longrightarrow>
      (e = Disconnected \<or> e = DecodeError) \<and>
      function_name (fst (snd (read self c))) = function_name self \<and>
      (\<exists>extra. content (fst (snd (read self c))) = content self @ extra) \<and>
      set (map fst (properties self)) \<subseteq> set (map fst (properties (fst (snd (read self c))))))"
proof (intro conjI impI)
  assume a: "wf_failing f \<and> delivers c (enc_failing f)"
  then have r: "fst (read self c) = Inl (err_failing f)"
    and s: "fst (snd (read self c)) = stored self (props_read f) (pairs_read f)"
    using read_failing[of f c self] by simp_all
  from r show "fst (read self c) = Inl (err_failing f)" .
  obtain s' c' where "read self c = (Inl (err_failing f), s', c')"
    using r by (cases "read self c") auto
  from read_cases[OF this]
  show "err_failing f = Disconnected \<or> err_failing f = DecodeError" by auto
  show "properties (fst (snd (read self c))) =
        assign_all (properties self) (decoded_props (props_read f))"
    unfolding s by (simp add: stored_def)
  show "content (fst (snd (read self c))) = content self @ decoded_items (pairs_read f)"
    unfolding s by (simp add: stored_def)
  show "function_name (fst (snd (read self c))) = function_name self"
    unfolding s by (simp add: stored_def)
next
  assume f: "fst (read self c) = Inl e"
  obtain s c' where r: "read self c = (Inl e, s, c')"
    using f by (cases "read self c") auto
  from read_cases[OF r] have k: "keeps self s" and e: "e = Disconnected \<or> e = DecodeError"
    by auto
  from e show "e = Disconnected \<or> e = DecodeError" .
  from k show "function_name (fst (snd (read self c))) = function_name self"
    unfolding r by (simp add: keeps_def)
  from k show "\<exists>extra. content (fst (snd (read self c))) = content self @ extra"
    unfolding r by (simp add: keeps_def)
  from k show "set (map fst (properties self)) \<subseteq> set (map fst (properties (fst (snd (read self c)))))"
    unfolding r by (simp add: keeps_def)
qed

theorem read_failure_keeps_stored_pairs_witness:
  "fst (read Input_init \<lparr>pending = [[0, 2, 0], [1, 97, 0, 1, 49]], reads = 0\<rparr>) = Inl Disconnected \<and>
   properties (fst (snd (read Input_init \<lparr>pending = [[0, 2, 0], [1, 97, 0, 1, 49]], reads = 0\<rparr>)))
     = [(Some (str_of ''a''), Some (str_of ''1''))] \<and>
   content (fst (snd (read Input_init \<lparr>pending = [[0, 2, 0], [1, 97, 0, 1, 49]], reads = 0\<rparr>))) = [] \<and>
   function_name (fst (snd (read Input_init \<lparr>pending = [[0, 2, 0], [1, 97, 0, 1, 49]], reads = 0\<rparr>)))
     = None \<and>
   fst (read Input_init \<lparr>pending = [[0, 0, 0, 2, 255, 255, 0, 0, 0, 1, 5, 0, 1, 255, 7]], reads = 0\<rparr>)
     = Inl DecodeError \<and>
   content (fst (snd (read Input_init
       \<lparr>pending = [[0, 0, 0, 2, 255, 255, 0, 0, 0, 1, 5, 0, 1, 255, 7]], reads = 0\<rparr>)))
     = [(None, [5])]"
proof -
  let ?f1 = "BadProp 2 [(Str [97], Str [49])] None (Truncated (Str [97]) 0) []"
  let ?c1 = "\<lparr>pending = [[0, 2, 0], [1, 97, 0, 1, 49]], reads = 0\<rparr>"
  let ?f2 = "BadItemKey 0 [] 2 [(Null (- 1), 1, [5])] (Invalid [255]) [7]"
  let ?c2 = "\<lparr>pending = [[0, 0, 0, 2, 255, 255, 0, 0, 0, 1, 5, 0, 1, 255, 7]], reads = 0\<rparr>"
  have w1: "wf_failing ?f1"
    by (simp add: wf_props_section_def int16_be_def)
  have e1: "enc_failing ?f1 = [0, 2, 0, 1, 97, 0, 1, 49]"
    by (simp add: props_section_def int16_be_def)
  have d1: "delivers ?c1 (enc_failing ?f1)"
    unfolding e1 by (simp add: delivers_def)
  have p1: "assign_all (properties Input_init) (decoded_props (props_read ?f1)) =
      [(Some (str_of ''a''), Some (str_of ''1''))]"
    by (simp add: assign_all_def decoded_props_def Input_init_def str_of_def)
  have q1: "content Input_init @ decoded_items (pairs_read ?f1) = []"
    by (simp add: decoded_items_def Input_init_def)
  have w2: "wf_failing ?f2"
    by (simp add: wf_props_section_def wf_content_section_def)
  have e2: "enc_failing ?f2 = [0, 0, 0, 2, 255, 255, 0, 0, 0, 1, 5, 0, 1, 255, 7]"
    by (simp add: props_section_def content_section_def int16_be_def int32_be_def)
  have d2: "delivers ?c2 (enc_failing ?f2)"
    unfolding e2 by (simp add: delivers_def)
  have q2: "content Input_init @ decoded_items (pairs_read ?f2) = [(None, [5])]"
    by (simp add: decoded_items_def Input_init_def)
  have n: "function_name Input_init = None" by (simp add: Input_init_def)
  from read_failure_keeps_stored_pairs[of ?f1 ?c1 Input_init Disconnected] w1 d1
  have r1: "fst (read Input_init ?c1) = Inl Disconnected \<and>
      properties (fst (snd (read Input_init ?c1))) = [(Some (str_of ''a''), Some (str_of ''1''))] \<and>
      content (fst (snd (read Input_init ?c1))) = [] \<and>
      function_name (fst (snd (read Input_init ?c1))) = None"
    unfolding p1 q1 n by simp
  from read_failure_keeps_stored_pairs[of ?f2 ?c2 Input_init DecodeError] w2 d2
  have r2: "fst (read Input_init ?c2) = Inl DecodeError \<and>
      content (fst (snd (read Input_init ?c2))) = [(None, [5])]"
    unfolding q2 by simp
  from r1 r2 show ?thesis by blast
qed

end
